theory Spec2Isabelle
  imports Main "HOL-Library.Sublist"
begin

section \<open>The value model (resp.go)\<close>

text \<open>
  Go strings are byte sequences; a \<^typ>\<open>char\<close> is one byte, so a Go \<open>string\<close> and a Go
  \<open>[]byte\<close> are both a \<^typ>\<open>string\<close> here.

  \<open>type Value struct { typ string; str string; num int; bulk string; array []Value }\<close>.
  The struct contains itself through a slice, so it is a datatype with one constructor whose
  selectors are the fields. A nil slice and an empty slice are both \<open>[]\<close>. The field
  \<open>num\<close> is a Go \<open>int\<close>; no code path of the repository computes with it.
\<close>

datatype Value = Value (typ': string) (str: string) (num: int) (bulk: string) (array: "Value list")

text \<open>\<open>Value{}\<close>, the zero value of the struct.\<close>

definition zero_Value :: Value where
  "zero_Value = Value [] [] 0 [] []"

text \<open>The composite literals the handlers build; every field not named is zero.\<close>

definition string_Value :: "string \<Rightarrow> Value" where
  "string_Value s = Value ''string'' s 0 [] []"

definition error_Value :: "string \<Rightarrow> Value" where
  "error_Value s = Value ''error'' s 0 [] []"

definition bulk_Value :: "string \<Rightarrow> Value" where
  "bulk_Value b = Value ''bulk'' [] 0 b []"

definition null_Value :: Value where
  "null_Value = Value ''null'' [] 0 [] []"

definition array_Value :: "Value list \<Rightarrow> Value" where
  "array_Value vs = Value ''array'' [] 0 [] vs"

section \<open>strconv: Itoa and ParseInt\<close>

text \<open>
  The two functions of Go's \<open>strconv\<close> package the repository calls. They are library
  code, modelled after their documented behaviour.

  \<open>strconv.Itoa\<close>: the decimal rendering of an integer, a minus sign for a negative
  number, then the digits without leading zeros.
\<close>

definition digit_char :: "nat \<Rightarrow> char" where
  "digit_char d = ''0123456789'' ! d"

fun digits :: "nat \<Rightarrow> string" where
  "digits n = (if n < 10 then [digit_char n] else digits (n div 10) @ [digit_char (n mod 10)])"

declare digits.simps [simp del]

definition Itoa :: "int \<Rightarrow> string" where
  "Itoa i = (if i < 0 then CHR ''-'' # digits (nat (- i)) else digits (nat i))"

text \<open>
  Everything that can go wrong while decoding or replaying: the end of the input
  (\<open>io.EOF\<close>), the two errors of \<open>strconv.ParseInt\<close>, and the two run-time panics the
  code can raise (\<open>make\<close> with a negative length, an index past the end of a slice).
\<close>

datatype error = EOF | ErrSyntax | ErrRange | PanicMakeslice | PanicIndex

text \<open>
  \<open>strconv.ParseInt(s, 10, 64)\<close>: an optional sign, then one or more decimal digits.
  \<open>ParseUint\<close> reads the digits from the left and stops at the first byte that is not a
  digit (\<open>ErrSyntax\<close>) or at the first overflow of 64 bits (\<open>ErrRange\<close>); the signed
  result must fit 64 bits. The value returned along with an error is dropped: no caller
  reads it.
\<close>

definition is_digit :: "char \<Rightarrow> bool" where
  "is_digit c = (of_char CHR ''0'' \<le> (of_char c :: nat) \<and> (of_char c :: nat) \<le> of_char CHR ''9'')"

definition digit_val :: "char \<Rightarrow> nat" where
  "digit_val c = of_char c - of_char CHR ''0''"

definition maxUint64 :: nat where
  "maxUint64 = 2 ^ 64 - 1"

fun ParseUint_loop :: "nat \<Rightarrow> string \<Rightarrow> error + nat" where
  "ParseUint_loop n [] = Inr n"
| "ParseUint_loop n (c # cs) =
     (if \<not> is_digit c then Inl ErrSyntax
      else if n \<ge> maxUint64 div 10 + 1 then Inl ErrRange
      else
        let n1 = n * 10 + digit_val c
        in if n1 > maxUint64 then Inl ErrRange else ParseUint_loop n1 cs)"

definition ParseUint :: "string \<Rightarrow> error + nat" where
  "ParseUint s = (if s = [] then Inl ErrSyntax else ParseUint_loop 0 s)"

definition ParseInt :: "string \<Rightarrow> error + int" where
  "ParseInt s =
     (if s = [] then Inl ErrSyntax
      else
        let neg = (hd s = CHR ''-'');
            s' = (if hd s = CHR ''+'' \<or> hd s = CHR ''-'' then tl s else s)
        in (case ParseUint s' of
              Inl err \<Rightarrow> Inl err
            | Inr un \<Rightarrow>
                if \<not> neg \<and> un \<ge> 2 ^ 63 then Inl ErrRange
                else if neg \<and> un > 2 ^ 63 then Inl ErrRange
                else Inr (if neg then - int un else int un)))"

section \<open>The keyspace and the command handlers (handler.go)\<close>

text \<open>
  The two package-level maps \<open>SETs\<close> and \<open>HSETs\<close> are the state every handler reads and
  writes; a handler takes the state and returns its response with the new state. The
  mutexes make each handler atomic, which is what a function on the state is.
\<close>

record store =
  SETs :: "string \<rightharpoonup> string"
  HSETs :: "string \<rightharpoonup> (string \<rightharpoonup> string)"

definition empty_store :: store where
  "empty_store = \<lparr>SETs = Map.empty, HSETs = Map.empty\<rparr>"

type_synonym handler = "Value list \<Rightarrow> store \<Rightarrow> Value \<times> store"

definition ping :: handler where
  "ping args st =
     (if length args = 0 then (string_Value ''PONG'', st)
      else (string_Value (bulk (args ! 0)), st))"

definition set_handler :: handler where
  "set_handler args st =
     (if length args \<noteq> 2
      then (error_Value ''ERR wrong number of arguments for 'set' command'', st)
      else
        let key = bulk (args ! 0);
            value = bulk (args ! 1)
        in (string_Value ''OK'', st\<lparr>SETs := (SETs st)(key \<mapsto> value)\<rparr>))"

definition get :: handler where
  "get args st =
     (if length args \<noteq> 1
      then (error_Value ''ERR wrong number of arguments for 'get' command'', st)
      else
        let key = bulk (args ! 0)
        in (case SETs st key of
              None \<Rightarrow> (null_Value, st)
            | Some value \<Rightarrow> (bulk_Value value, st)))"

definition hset :: handler where
  "hset args st =
     (if length args \<noteq> 3
      then (error_Value ''ERR wrong number of arguments for 'hset' command'', st)
      else
        let hash = bulk (args ! 0);
            key = bulk (args ! 1);
            value = bulk (args ! 2);
            h = (case HSETs st hash of None \<Rightarrow> Map.empty | Some m \<Rightarrow> m)
        in (string_Value ''OK'', st\<lparr>HSETs := (HSETs st)(hash \<mapsto> h(key \<mapsto> value))\<rparr>))"

text \<open>
  \<open>HSETs[hash][key]\<close> on an absent hash indexes a nil map, which yields \<open>ok = false\<close>.
\<close>

definition hget :: handler where
  "hget args st =
     (if length args \<noteq> 2
      then (error_Value ''ERR wrong number of arguments for 'hget' command'', st)
      else
        let hash = bulk (args ! 0);
            key = bulk (args ! 1)
        in (case HSETs st hash of
              None \<Rightarrow> (null_Value, st)
            | Some m \<Rightarrow>
                (case m key of
                   None \<Rightarrow> (null_Value, st)
                 | Some value \<Rightarrow> (bulk_Value value, st))))"

text \<open>
  \<open>for k, v := range value\<close> visits the entries of a Go map in an order the language
  leaves open. The order is a parameter of the model: \<open>ks\<close> lists the keys in the order
  this run of the loop visits them (an enumeration of the map's keys; a key that is not in
  the map has no entry to visit).
\<close>

definition range_map :: "('k \<rightharpoonup> 'v) \<Rightarrow> 'k list \<Rightarrow> ('k \<times> 'v) list" where
  "range_map m ks = List.map_filter (\<lambda>k. map_option (Pair k) (m k)) ks"

definition hgetall :: "string list \<Rightarrow> handler" where
  "hgetall ks args st =
     (if length args \<noteq> 1
      then (error_Value ''ERR wrong number of arguments for 'hgetall' command'', st)
      else
        let hash = bulk (args ! 0)
        in (case HSETs st hash of
              None \<Rightarrow> (null_Value, st)
            | Some value \<Rightarrow>
                (array_Value
                   (concat (map (\<lambda>(k, v). [bulk_Value k, bulk_Value v]) (range_map value ks))),
                 st)))"

text \<open>
  The loop of \<open>del\<close> over its arguments, with \<open>deletedCount\<close> carried along. The
  \<open>continue\<close> after a removal from \<open>SETs\<close> skips the check of \<open>HSETs\<close> for that
  argument.
\<close>

fun del_loop :: "Value list \<Rightarrow> store \<Rightarrow> int \<Rightarrow> store \<times> int" where
  "del_loop [] st deletedCount = (st, deletedCount)"
| "del_loop (arg # args) st deletedCount =
     (let key = bulk arg
      in if SETs st key \<noteq> None
         then del_loop args (st\<lparr>SETs := (SETs st)(key := None)\<rparr>) (deletedCount + 1)
         else if HSETs st key \<noteq> None
         then del_loop args (st\<lparr>HSETs := (HSETs st)(key := None)\<rparr>) (deletedCount + 1)
         else del_loop args st deletedCount)"

definition del :: handler where
  "del args st =
     (if length args < 1
      then (error_Value ''ERR wrong number of arguments for 'del' command'', st)
      else
        let (st', deletedCount) = del_loop args st 0
        in (string_Value (Itoa deletedCount), st'))"

text \<open>The command registry. Only \<open>HGETALL\<close> depends on the visiting order.\<close>

definition Handlers :: "string list \<Rightarrow> string \<rightharpoonup> handler" where
  "Handlers ks =
     [''PING'' \<mapsto> ping,
      ''SET'' \<mapsto> set_handler,
      ''GET'' \<mapsto> get,
      ''HSET'' \<mapsto> hset,
      ''HGET'' \<mapsto> hget,
      ''HGETALL'' \<mapsto> hgetall ks,
      ''DEL'' \<mapsto> del]"

section \<open>bufio.Reader\<close>

text \<open>
  The decoder reads through a \<open>bufio.Reader\<close> of Go's standard library, created with the
  default buffer of 4096 bytes. Its state is the bytes in the buffer that were not yet
  consumed (\<open>buf\<close>) and the bytes the underlying reader has still to deliver (\<open>rd\<close>). The
  underlying reader is taken to fill a request as far as bytes remain and to report
  \<open>io.EOF\<close> when none do, as a regular file does.

  \<open>ReadByte\<close> refills an empty buffer (one read of up to 4096 bytes) and hands out one byte.
  \<open>Read(p)\<close> with \<open>len(p) = n\<close> copies what the buffer holds, at most \<open>n\<close> bytes; with an
  empty buffer it reads once from the underlying reader, into \<open>p\<close> itself when
  \<open>n \<ge> 4096\<close>, into the buffer otherwise. It never reads twice, so it can return fewer than
  \<open>n\<close> bytes although more are to come. \<open>bufio_Read\<close> returns the bytes copied.
\<close>

record bufio_Reader =
  buf :: string
  rd :: string

definition defaultBufSize :: nat where
  "defaultBufSize = 4096"

definition NewReader :: "string \<Rightarrow> bufio_Reader" where
  "NewReader bytes = \<lparr>buf = [], rd = bytes\<rparr>"

definition bufio_ReadByte :: "bufio_Reader \<Rightarrow> (error + char) \<times> bufio_Reader" where
  "bufio_ReadByte r =
     (case buf r of
        c # cs \<Rightarrow> (Inr c, r\<lparr>buf := cs\<rparr>)
      | [] \<Rightarrow>
          (case take defaultBufSize (rd r) of
             [] \<Rightarrow> (Inl EOF, r)
           | c # cs \<Rightarrow> (Inr c, \<lparr>buf = cs, rd = drop defaultBufSize (rd r)\<rparr>)))"

definition bufio_Read :: "nat \<Rightarrow> bufio_Reader \<Rightarrow> string \<times> bufio_Reader" where
  "bufio_Read n r =
     (if n = 0 then ([], r)
      else if buf r \<noteq> [] then (take n (buf r), r\<lparr>buf := drop n (buf r)\<rparr>)
      else if n \<ge> defaultBufSize then (take n (rd r), r\<lparr>rd := drop n (rd r)\<rparr>)
      else
        let b = take defaultBufSize (rd r)
        in (take n b, \<lparr>buf = drop n b, rd = drop defaultBufSize (rd r)\<rparr>))"

text \<open>The number of bytes not yet consumed: the measure by which every read loop ends.\<close>

definition unread :: "bufio_Reader \<Rightarrow> nat" where
  "unread r = length (buf r) + length (rd r)"

lemma bufio_ReadByte_unread:
  "bufio_ReadByte r = (Inr b, r') \<Longrightarrow> unread r' < unread r"
  by (auto simp: bufio_ReadByte_def unread_def split: list.splits dest!: arg_cong[where f=length])

lemma bufio_ReadByte_unread_le:
  "bufio_ReadByte r = (x, r') \<Longrightarrow> unread r' \<le> unread r"
  by (auto simp: bufio_ReadByte_def unread_def split: list.splits dest!: arg_cong[where f=length])

lemma bufio_Read_unread_le:
  "bufio_Read n r = (x, r') \<Longrightarrow> unread r' \<le> unread r"
  by (auto simp: bufio_Read_def unread_def Let_def split: if_splits)

section \<open>The decoder (resp.go)\<close>

text \<open>
  \<open>type Resp struct { reader *bufio.Reader }\<close>: a \<open>Resp\<close> is its reader. Every method
  returns its result, or the error, together with the reader as it leaves it. Where the Go
  method returns a partly filled Value along with an error, the error alone is returned:
  every caller drops that Value.
\<close>

type_synonym Resp = bufio_Reader

definition NewResp :: "string \<Rightarrow> Resp" where
  "NewResp bytes = NewReader bytes"

definition STRING :: char where "STRING = CHR ''+''"
definition ERROR :: char where "ERROR = CHR ''-''"
definition INTEGER :: char where "INTEGER = CHR '':''"
definition BULK :: char where "BULK = CHR ''$''"
definition ARRAY :: char where "ARRAY = CHR ''*''"

definition CRLF :: string where
  "CRLF = [CHR 0x0D, CHR 0x0A]"

text \<open>
  \<open>readLine\<close> appends bytes to \<open>line\<close> until the byte before the last one is a carriage
  return, whatever the last byte is, and returns the line without its last two bytes, and
  the number of bytes read. \<open>readInteger\<close> parses the line; its \<open>int(i64)\<close> changes
  nothing, \<open>int\<close> being 64 bits wide.
\<close>

function readLine_loop :: "string \<Rightarrow> nat \<Rightarrow> Resp \<Rightarrow> (error + string \<times> nat) \<times> Resp" where
  "readLine_loop line n r =
     (case bufio_ReadByte r of
        (Inl err, r') \<Rightarrow> (Inl err, r')
      | (Inr b, r') \<Rightarrow>
          let n' = n + 1;
              line' = line @ [b]
          in if length line' \<ge> 2 \<and> line' ! (length line' - 2) = CHR 0x0D
             then (Inr (take (length line' - 2) line', n'), r')
             else readLine_loop line' n' r')"
  by pat_completeness auto
termination
  by (relation "measure (\<lambda>(line, n, r). unread r)") (auto dest: bufio_ReadByte_unread [OF sym])

declare readLine_loop.simps [simp del]

definition readLine :: "Resp \<Rightarrow> (error + string \<times> nat) \<times> Resp" where
  "readLine r = readLine_loop [] 0 r"

definition readInteger :: "Resp \<Rightarrow> (error + int \<times> nat) \<times> Resp" where
  "readInteger r =
     (case readLine r of
        (Inl err, r') \<Rightarrow> (Inl err, r')
      | (Inr (line, n), r') \<Rightarrow>
          (case ParseInt line of
             Inl err \<Rightarrow> (Inl err, r')
           | Inr i64 \<Rightarrow> (Inr (i64, n), r')))"

text \<open>
  \<open>readBulk\<close>: \<open>make([]byte, len)\<close> panics on a negative length; otherwise the slice is
  \<open>len\<close> zero bytes, of which \<open>r.reader.Read(bulk)\<close> overwrites as many as it returns. The
  results of that read and of the \<open>readLine\<close> that follows are not looked at. (An allocation
  is taken to succeed for every length that is not negative.)
\<close>

definition readBulk :: "Resp \<Rightarrow> (error + Value) \<times> Resp" where
  "readBulk r =
     (case readInteger r of
        (Inl err, r') \<Rightarrow> (Inl err, r')
      | (Inr (len, _), r') \<Rightarrow>
          if len < 0 then (Inl PanicMakeslice, r')
          else
            let (got, r'') = bufio_Read (nat len) r';
                bulk = got @ replicate (nat len - length got) (CHR 0x00);
                (_, r''') = readLine r''
            in (Inr (Value ''bulk'' [] 0 bulk []), r'''))"

text \<open>\<open>v.array = append(v.array, val)\<close>.\<close>

definition append_array :: "Value \<Rightarrow> Value \<Rightarrow> Value" where
  "append_array v val = Value (typ' v) (str v) (num v) (bulk v) (array v @ [val])"

text \<open>No read gives bytes back: each leaves at most as many unread as it found.\<close>

lemma readLine_loop_unread_le:
  "readLine_loop line n r = (x, r') \<Longrightarrow> unread r' \<le> unread r"
proof (induction line n r rule: readLine_loop.induct)
  case (1 line n r)
  show ?case
  proof (cases "bufio_ReadByte r")
    case (Pair y r1)
    note rb = this
    show ?thesis
    proof (cases y)
      case (Inl e)
      with rb "1.prems" have "r' = r1" by (simp add: readLine_loop.simps [of line n r])
      with rb show ?thesis by (auto dest: bufio_ReadByte_unread_le)
    next
      case (Inr b)
      note yb = this
      from rb have le1: "unread r1 \<le> unread r" by (rule bufio_ReadByte_unread_le)
      show ?thesis
      proof (cases "length (line @ [b]) \<ge> 2 \<and> (line @ [b]) ! (length (line @ [b]) - 2) = CHR 0x0D")
        case True
        with rb yb "1.prems" have "r' = r1"
          by (simp add: readLine_loop.simps [of line n r] Let_def)
        with le1 show ?thesis by simp
      next
        case False
        with rb yb "1.prems" have rec: "readLine_loop (line @ [b]) (n + 1) r1 = (x, r')"
          by (auto simp: readLine_loop.simps [of line n r] Let_def split: if_splits)
        from False have c: "\<not> (2 \<le> length (line @ [b]) \<and> (line @ [b]) ! (length (line @ [b]) - 2) = CHR 0x0D)"
          by simp
        from "1.IH" [OF rb [symmetric] yb refl refl c rec] le1 show ?thesis by simp
      qed
    qed
  qed
qed

lemma readLine_unread_le: "readLine r = (x, r') \<Longrightarrow> unread r' \<le> unread r"
  unfolding readLine_def by (rule readLine_loop_unread_le)

lemma readInteger_unread_le: "readInteger r = (x, r') \<Longrightarrow> unread r' \<le> unread r"
  by (auto simp: readInteger_def split: prod.splits sum.splits dest: readLine_unread_le)

lemma readBulk_unread_le: "readBulk r = (x, r') \<Longrightarrow> unread r' \<le> unread r"
  by (fastforce simp: readBulk_def Let_def split: prod.splits sum.splits if_splits
      dest: readLine_unread_le readInteger_unread_le bufio_Read_unread_le)

text \<open>
  \<open>Read\<close> dispatches on the type byte; \<open>readArray\<close> reads the element count and calls
  \<open>Read\<close> once per element (\<open>readArray_loop\<close> is its \<open>for i := 0; i < len; i++\<close>). A
  type byte other than \<open>*\<close> and \<open>$\<close> is printed and answered with \<open>Value{}\<close> and no
  error, the rest of the input left where it is.
\<close>

function Read :: "Resp \<Rightarrow> (error + Value) \<times> Resp"
  and readArray :: "Resp \<Rightarrow> (error + Value) \<times> Resp"
  and readArray_loop :: "int \<Rightarrow> int \<Rightarrow> Value \<Rightarrow> Resp \<Rightarrow> (error + Value) \<times> Resp"
where
  "Read r =
     (case bufio_ReadByte r of
        (Inl err, r') \<Rightarrow> (Inl err, r')
      | (Inr type, r') \<Rightarrow>
          if type = ARRAY then readArray r'
          else if type = BULK then readBulk r'
          else (Inr zero_Value, r'))"
| "readArray r =
     (case readInteger r of
        (Inl err, r') \<Rightarrow> (Inl err, r')
      | (Inr (len, _), r') \<Rightarrow> readArray_loop 0 len (Value ''array'' [] 0 [] []) r')"
| "readArray_loop i len v r =
     (if i < len
      then (case Read r of
              (Inl err, r') \<Rightarrow> (Inl err, r')
            | (Inr val, r') \<Rightarrow> readArray_loop (i + 1) len (append_array v val) r')
      else (Inr v, r))"
  by pat_completeness auto

lemma Read_step_unread:
  assumes eq: "Read r =
     (case bufio_ReadByte r of
        (Inl err, r') \<Rightarrow> (Inl err, r')
      | (Inr type, r') \<Rightarrow>
          if type = ARRAY then readArray r'
          else if type = BULK then readBulk r'
          else (Inr zero_Value, r'))"
    and ih: "\<And>y. bufio_ReadByte r = (Inr ARRAY, y) \<Longrightarrow> unread (snd (readArray y)) \<le> unread y"
  shows "unread (snd (Read r)) \<le> unread r"
proof -
  obtain x y where rb: "bufio_ReadByte r = (x, y)" by (cases "bufio_ReadByte r")
  from rb have le: "unread y \<le> unread r" by (rule bufio_ReadByte_unread_le)
  show ?thesis
  proof (cases x)
    case (Inl e)
    with rb le eq show ?thesis by simp
  next
    case (Inr b)
    show ?thesis
    proof (cases "b = ARRAY")
      case True
      with rb Inr have "unread (snd (readArray y)) \<le> unread y" by (simp add: ih)
      with rb Inr True le eq show ?thesis by simp
    next
      case False
      obtain z w where bk: "readBulk y = (z, w)" by (cases "readBulk y")
      from bk have "unread w \<le> unread y" by (rule readBulk_unread_le)
      with rb Inr False le bk eq show ?thesis by simp
    qed
  qed
qed

lemma readArray_step_unread:
  assumes eq: "readArray r =
     (case readInteger r of
        (Inl err, r') \<Rightarrow> (Inl err, r')
      | (Inr (len, _), r') \<Rightarrow> readArray_loop 0 len (Value ''array'' [] 0 [] []) r')"
    and ih: "\<And>len n y. readInteger r = (Inr (len, n), y) \<Longrightarrow>
               unread (snd (readArray_loop 0 len (Value ''array'' [] 0 [] []) y)) \<le> unread y"
  shows "unread (snd (readArray r)) \<le> unread r"
proof -
  obtain x y where ri: "readInteger r = (x, y)" by (cases "readInteger r")
  from ri have le: "unread y \<le> unread r" by (rule readInteger_unread_le)
  show ?thesis
  proof (cases x)
    case (Inl e)
    with ri le eq show ?thesis by simp
  next
    case (Inr b)
    obtain len n where b: "b = (len, n)" by (cases b)
    from ri Inr b have "unread (snd (readArray_loop 0 len (Value ''array'' [] 0 [] []) y)) \<le> unread y"
      by (simp add: ih)
    with ri Inr b le eq show ?thesis by simp
  qed
qed

lemma readArray_loop_step_unread:
  assumes eq: "readArray_loop i len v r =
     (if i < len
      then (case Read r of
              (Inl err, r') \<Rightarrow> (Inl err, r')
            | (Inr val, r') \<Rightarrow> readArray_loop (i + 1) len (append_array v val) r')
      else (Inr v, r))"
    and ih1: "i < len \<Longrightarrow> unread (snd (Read r)) \<le> unread r"
    and ih2: "\<And>val y. i < len \<Longrightarrow> Read r = (Inr val, y) \<Longrightarrow>
               unread (snd (readArray_loop (i + 1) len (append_array v val) y)) \<le> unread y"
  shows "unread (snd (readArray_loop i len v r)) \<le> unread r"
proof (cases "i < len")
  case False
  with eq show ?thesis by simp
next
  case True
  obtain x y where rr: "Read r = (x, y)" by (cases "Read r")
  from ih1 [OF True] rr have le: "unread y \<le> unread r" by simp
  show ?thesis
  proof (cases x)
    case (Inl e)
    with rr le True eq show ?thesis by simp
  next
    case (Inr val)
    with rr True have "unread (snd (readArray_loop (i + 1) len (append_array v val) y)) \<le> unread y"
      by (simp add: ih2)
    with rr Inr le True eq show ?thesis by simp
  qed
qed

lemma Read_unread_le_dom:
  "Read_readArray_readArray_loop_dom (Inl r) \<Longrightarrow> unread (snd (Read r)) \<le> unread r"
  "Read_readArray_readArray_loop_dom (Inr (Inl r1)) \<Longrightarrow> unread (snd (readArray r1)) \<le> unread r1"
  "Read_readArray_readArray_loop_dom (Inr (Inr (i, len, v, r2))) \<Longrightarrow>
     unread (snd (readArray_loop i len v r2)) \<le> unread r2"
proof (induction rule: Read_readArray_readArray_loop.pinduct)
  case (1 r)
  show ?case
    by (rule Read_step_unread [OF Read.psimps [OF "1.hyps"]]) (rule "1.IH" [OF sym refl refl])
next
  case (2 r)
  show ?case
    by (rule readArray_step_unread [OF readArray.psimps [OF "2.hyps"]])
       (rule "2.IH" [OF sym refl refl])
next
  case (3 i len v r)
  show ?case
    by (rule readArray_loop_step_unread [OF readArray_loop.psimps [OF "3.hyps"]])
       (rule "3.IH"(1), assumption, rule "3.IH"(2) [OF _ sym refl])
qed

termination Read
proof (relation "inv_image (less_than <*lex*> less_than <*lex*> less_than)
    (\<lambda>x. case x of
            Inl r \<Rightarrow> (unread r, 0::nat, 0::nat)
          | Inr (Inl r) \<Rightarrow> (unread r, 2, 0)
          | Inr (Inr (i, len, v, r)) \<Rightarrow> (unread r, 1, nat (len - i)))", goal_cases)
  case 1
  show ?case by (intro wf_inv_image wf_lex_prod wf_less_than)
next
  case (2 r x y b)
  then show ?case by (auto dest: bufio_ReadByte_unread [OF sym])
next
  case (3 r x y b xa ya)
  from 3(1) have "unread y \<le> unread r" by (auto dest: readInteger_unread_le [OF sym])
  then show ?case by auto
next
  case (4 i len v r)
  then show ?case by simp
next
  case (5 i len v r x y b)
  from Read_unread_le_dom(1) [OF 5(4)] 5(2) have "unread y \<le> unread r"
    by (metis snd_conv)
  with 5(1) show ?case by auto
qed

declare Read.simps [simp del] readArray.simps [simp del] readArray_loop.simps [simp del]

section \<open>The encoder (resp.go)\<close>

definition marshalString :: "Value \<Rightarrow> string" where
  "marshalString v = [STRING] @ str v @ CRLF"

definition marshalBulk :: "Value \<Rightarrow> string" where
  "marshalBulk v = [BULK] @ Itoa (int (length (bulk v))) @ CRLF @ bulk v @ CRLF"

definition marshallError :: "Value \<Rightarrow> string" where
  "marshallError v = [ERROR] @ str v @ CRLF"

definition marshallNull :: "Value \<Rightarrow> string" where
  "marshallNull v = ''$-1'' @ CRLF"

fun Marshal :: "Value \<Rightarrow> string"
  and marshalArray :: "Value \<Rightarrow> string"
where
  "Marshal (Value t s n b a) =
     (if t = ''array'' then marshalArray (Value t s n b a)
      else if t = ''bulk'' then marshalBulk (Value t s n b a)
      else if t = ''string'' then marshalString (Value t s n b a)
      else if t = ''null'' then marshallNull (Value t s n b a)
      else if t = ''error'' then marshallError (Value t s n b a)
      else [])"
| "marshalArray (Value t s n b a) =
     [ARRAY] @ Itoa (int (length a)) @ CRLF @ concat (map Marshal a)"

section \<open>The server loop and the append-only file\<close>

text \<open>
  \<open>strings.ToUpper\<close>: a string of ASCII bytes has its letters \<open>a\<close> to \<open>z\<close> moved to upper
  case; any other string is mapped rune by rune with the Unicode tables, which are a
  parameter \<open>U\<close> here.
\<close>

definition toUpper_ascii :: "char \<Rightarrow> char" where
  "toUpper_ascii c =
     (if of_char CHR ''a'' \<le> (of_char c :: nat) \<and> (of_char c :: nat) \<le> of_char CHR ''z''
      then char_of ((of_char c :: nat) - 32) else c)"

definition ToUpper :: "(string \<Rightarrow> string) \<Rightarrow> string \<Rightarrow> string" where
  "ToUpper U s = (if list_all (\<lambda>c. (of_char c :: nat) < 128) s then map toUpper_ascii s else U s)"

text \<open>
  What one connection has changed: the keyspace, the contents of the append-only file and
  the bytes written back to the client. \<open>Aof.Write\<close> writes at the file offset, which is the
  end of the file once the replay at start-up has read the file through; writes are taken
  to succeed.
\<close>

record server =
  keyspace :: store
  aof_file :: string
  conn_out :: string

definition Aof_Write :: "Value \<Rightarrow> string \<Rightarrow> string" where
  "Aof_Write value file = file @ Marshal value"

definition Writer_Write :: "Value \<Rightarrow> string \<Rightarrow> string" where
  "Writer_Write v out = out @ Marshal v"

text \<open>
  The body of the loop of \<open>main\<close> for one request that \<open>resp.Read()\<close> has decoded. \<open>ks\<close>
  is the order in which \<open>HGETALL\<close> visits a hash, should this request run it.
\<close>

definition serve_request :: "(string \<Rightarrow> string) \<Rightarrow> string list \<Rightarrow> Value \<Rightarrow> server \<Rightarrow> server" where
  "serve_request U ks value sv =
     (if typ' value \<noteq> ''array'' then sv
      else if length (array value) = 0 then sv
      else
        let command = ToUpper U (bulk (array value ! 0));
            args = drop 1 (array value)
        in (case Handlers ks command of
              None \<Rightarrow> sv\<lparr>conn_out := Writer_Write (string_Value []) (conn_out sv)\<rparr>
            | Some handler \<Rightarrow>
                let sv1 = (if command = ''SET'' \<or> command = ''HSET''
                           then sv\<lparr>aof_file := Aof_Write value (aof_file sv)\<rparr> else sv);
                    (result, st') = handler args (keyspace sv1)
                in sv1\<lparr>keyspace := st', conn_out := Writer_Write result (conn_out sv1)\<rparr>))"

text \<open>Every value \<open>Read\<close> returns has cost at least its type byte.\<close>

lemma Read_unread_le:
  "unread (snd (Read r)) \<le> unread r"
  "unread (snd (readArray r1)) \<le> unread r1"
  "unread (snd (readArray_loop i len v r2)) \<le> unread r2"
proof (induction r and r1 and i len v r2 rule: Read_readArray_readArray_loop.induct)
  case (1 r)
  show ?case
    by (rule Read_step_unread [OF Read.simps]) (rule "1.IH" [OF sym refl refl])
next
  case (2 r)
  show ?case
    by (rule readArray_step_unread [OF readArray.simps]) (rule "2.IH" [OF sym refl refl])
next
  case (3 i len v r)
  show ?case
    by (rule readArray_loop_step_unread [OF readArray_loop.simps])
       (rule "3.IH"(1), assumption, rule "3.IH"(2) [OF _ sym refl])
qed

lemma Read_unread_lt: "Read r = (Inr v, r') \<Longrightarrow> unread r' < unread r"
proof -
  assume a: "Read r = (Inr v, r')"
  obtain x y where rb: "bufio_ReadByte r = (x, y)" by (cases "bufio_ReadByte r")
  show ?thesis
  proof (cases x)
    case (Inl e)
    with a rb show ?thesis by (simp add: Read.simps)
  next
    case (Inr b)
    with rb have lt: "unread y < unread r" by (auto dest: bufio_ReadByte_unread)
    from Read_unread_le(2) [of y] have 1: "unread (snd (readArray y)) \<le> unread y" .
    have 2: "unread (snd (readBulk y)) \<le> unread y"
      by (cases "readBulk y") (auto dest: readBulk_unread_le)
    from a rb Inr have "r' = snd (readArray y) \<or> r' = snd (readBulk y) \<or> r' = y"
      by (auto simp: Read.simps split: if_splits)
    with lt 1 2 show ?thesis by auto
  qed
qed

text \<open>
  \<open>Aof.Read\<close> decodes the file from its start and hands every Value to the callback until
  \<open>Read\<close> fails; \<open>io.EOF\<close> ends the replay without an error, any other error is
  returned. The callback works on a state \<open>'s\<close> and may panic. The result is the error, if
  any, and the state reached.
\<close>

function Aof_Read_loop :: "(Value \<Rightarrow> 's \<Rightarrow> error + 's) \<Rightarrow> Resp \<Rightarrow> 's \<Rightarrow> error option \<times> 's" where
  "Aof_Read_loop fn reader st =
     (case Read reader of
        (Inl err, reader') \<Rightarrow> if err = EOF then (None, st) else (Some err, st)
      | (Inr value, reader') \<Rightarrow>
          (case fn value st of
             Inl p \<Rightarrow> (Some p, st)
           | Inr st' \<Rightarrow> Aof_Read_loop fn reader' st'))"
  by pat_completeness auto
termination
  by (relation "measure (\<lambda>(fn, reader, st). unread reader)") (auto dest: Read_unread_lt [OF sym])

declare Aof_Read_loop.simps [simp del]

definition Aof_Read :: "(Value \<Rightarrow> 's \<Rightarrow> error + 's) \<Rightarrow> string \<Rightarrow> 's \<Rightarrow> error option \<times> 's" where
  "Aof_Read fn file st = Aof_Read_loop fn (NewResp file) st"

text \<open>
  The callback \<open>main\<close> passes to \<open>aof.Read\<close>: \<open>value.array[0]\<close> panics on an empty
  array, an unknown command is skipped, and the response of the handler is dropped.
\<close>

definition replay_fn :: "(string \<Rightarrow> string) \<Rightarrow> string list \<Rightarrow> Value \<Rightarrow> store \<Rightarrow> error + store" where
  "replay_fn U ks value st =
     (if length (array value) = 0 then Inl PanicIndex
      else
        let command = ToUpper U (bulk (array value ! 0));
            args = drop 1 (array value)
        in (case Handlers ks command of
              None \<Rightarrow> Inr st
            | Some handler \<Rightarrow> Inr (snd (handler args st))))"

section \<open>Values and states the statements below are about\<close>

text \<open>
  A request as a client sends it: an array of bulk strings, the command name first.
\<close>

definition cmd :: "string list \<Rightarrow> Value" where
  "cmd ws = array_Value (map bulk_Value ws)"

text \<open>
  The Value trees made of bulk strings and arrays only, every field that is not the
  payload of the node's kind being zero: what a client sends, and what the file holds.
\<close>

fun wire_tree :: "Value \<Rightarrow> bool" where
  "wire_tree (Value t s n b a) =
     (s = [] \<and> n = 0 \<and>
      (if t = ''bulk'' then a = []
       else t = ''array'' \<and> b = [] \<and> list_all wire_tree a))"

text \<open>A keyspace that holds the key \<open>k\<close> both as a scalar and as a hash.\<close>

definition both_store :: store where
  "both_store = \<lparr>SETs = [''k'' \<mapsto> ''v''], HSETs = [''k'' \<mapsto> [''f'' \<mapsto> ''x'']]\<rparr>"

text \<open>A keyspace with the two scalars \<open>a\<close> and \<open>b\<close>.\<close>

definition two_scalars :: store where
  "two_scalars = \<lparr>SETs = [''a'' \<mapsto> ''1'', ''b'' \<mapsto> ''2''], HSETs = Map.empty\<rparr>"

text \<open>A keyspace whose hash \<open>h\<close> has the fields \<open>x\<close> and \<open>y\<close>.\<close>

definition xy_store :: store where
  "xy_store = \<lparr>SETs = Map.empty, HSETs = [''h'' \<mapsto> [''x'' \<mapsto> ''1'', ''y'' \<mapsto> ''2'']]\<rparr>"

text \<open>A server that has just started on an empty file.\<close>

definition fresh_server :: server where
  "fresh_server = \<lparr>keyspace = empty_store, aof_file = [], conn_out = []\<rparr>"

text \<open>The file after \<open>SET a 1\<close>, \<open>HSET h f 2\<close> and \<open>SET a 3\<close> were appended in that order.\<close>

definition replay_log :: string where
  "replay_log =
     Marshal (cmd [''SET'', ''a'', ''1'']) @
     Marshal (cmd [''HSET'', ''h'', ''f'', ''2'']) @
     Marshal (cmd [''SET'', ''a'', ''3''])"

section \<open>The command handlers\<close>

lemma digits_lt10: "n < 10 \<Longrightarrow> digits n = [digit_char n]"
  by (simp add: digits.simps)

lemma Itoa_digit: "0 \<le> i \<Longrightarrow> i < 10 \<Longrightarrow> Itoa i = [digit_char (nat i)]"
  by (simp add: Itoa_def digits.simps)

lemma digits_ge10: "10 \<le> n \<Longrightarrow> digits n = digits (n div 10) @ [digit_char (n mod 10)]"
  by (subst digits.simps) simp

lemma Itoa_small: "Itoa 0 = ''0''" "Itoa 1 = ''1''" "Itoa 5000 = ''5000''"
  by (simp_all add: Itoa_def digits_lt10 digits_ge10 digit_char_def)

subsection \<open>Arity errors\<close>

text \<open>
  C5. \<open>SET\<close> with exactly one argument returns an error Value whose text contains
  \<open>wrong number of arguments for 'set' command\<close>, and \<open>GET\<close> with no argument returns an
  error Value whose text contains \<open>wrong number of arguments for 'get' command\<close>.
  (\<^const>\<open>sublist\<close> is the relation of being a contiguous part.)
\<close>

theorem arity_error_text:
  "typ' (fst (set_handler [a] st)) = ''error'' \<and>
   sublist ''wrong number of arguments for 'set' command'' (str (fst (set_handler [a] st))) \<and>
   typ' (fst (get [] st)) = ''error'' \<and>
   sublist ''wrong number of arguments for 'get' command'' (str (fst (get [] st)))"
proof -
  have s: "sublist ''wrong number of arguments for 'set' command''
             (''ERR '' @ ''wrong number of arguments for 'set' command'' @ [])"
    by (rule sublist_appendI)
  have g: "sublist ''wrong number of arguments for 'get' command''
             (''ERR '' @ ''wrong number of arguments for 'get' command'' @ [])"
    by (rule sublist_appendI)
  from s g show ?thesis
    by (simp add: set_handler_def get_def error_Value_def)
qed

text \<open>
  C9. Whenever \<open>SET\<close>, \<open>GET\<close>, \<open>HSET\<close>, \<open>HGET\<close>, \<open>HGETALL\<close> or \<open>DEL\<close> returns an error
  Value (which each does only for a wrong number of arguments), the scalar and the hash
  namespace are as they were before the call.
\<close>

theorem arity_error_keeps_state:
  "(typ' (fst (set_handler args st)) = ''error'' \<longrightarrow> snd (set_handler args st) = st) \<and>
   (typ' (fst (get args st)) = ''error'' \<longrightarrow> snd (get args st) = st) \<and>
   (typ' (fst (hset args st)) = ''error'' \<longrightarrow> snd (hset args st) = st) \<and>
   (typ' (fst (hget args st)) = ''error'' \<longrightarrow> snd (hget args st) = st) \<and>
   (typ' (fst (hgetall ks args st)) = ''error'' \<longrightarrow> snd (hgetall ks args st) = st) \<and>
   (typ' (fst (del args st)) = ''error'' \<longrightarrow> snd (del args st) = st)"
proof -
  have 1: "typ' (fst (set_handler args st)) = ''error'' \<longrightarrow> snd (set_handler args st) = st"
    by (simp add: set_handler_def Let_def string_Value_def)
  have 2: "typ' (fst (get args st)) = ''error'' \<longrightarrow> snd (get args st) = st"
    by (simp add: get_def Let_def split: option.splits)
  have 3: "typ' (fst (hset args st)) = ''error'' \<longrightarrow> snd (hset args st) = st"
    by (simp add: hset_def Let_def string_Value_def)
  have 4: "typ' (fst (hget args st)) = ''error'' \<longrightarrow> snd (hget args st) = st"
    by (simp add: hget_def Let_def split: option.splits)
  have 5: "typ' (fst (hgetall ks args st)) = ''error'' \<longrightarrow> snd (hgetall ks args st) = st"
    by (simp add: hgetall_def Let_def split: option.splits)
  have 6: "typ' (fst (del args st)) = ''error'' \<longrightarrow> snd (del args st) = st"
    by (simp add: del_def string_Value_def split: prod.splits)
  from 1 2 3 4 5 6 show ?thesis by blast
qed

theorem arity_error_keeps_state_witness:
  "typ' (fst (set_handler [] both_store)) = ''error'' \<and> snd (set_handler [] both_store) = both_store \<and>
   typ' (fst (get [] both_store)) = ''error'' \<and> snd (get [] both_store) = both_store \<and>
   typ' (fst (hset [] both_store)) = ''error'' \<and> snd (hset [] both_store) = both_store \<and>
   typ' (fst (hget [] both_store)) = ''error'' \<and> snd (hget [] both_store) = both_store \<and>
   typ' (fst (hgetall [] [] both_store)) = ''error'' \<and> snd (hgetall [] [] both_store) = both_store \<and>
   typ' (fst (del [] both_store)) = ''error'' \<and> snd (del [] both_store) = both_store"
proof -
  have e: "typ' (fst (set_handler [] both_store)) = ''error''"
    "typ' (fst (get [] both_store)) = ''error''"
    "typ' (fst (hset [] both_store)) = ''error''"
    "typ' (fst (hget [] both_store)) = ''error''"
    "typ' (fst (hgetall [] [] both_store)) = ''error''"
    "typ' (fst (del [] both_store)) = ''error''"
    by (simp_all add: set_handler_def get_def hset_def hget_def hgetall_def del_def error_Value_def)
  from arity_error_keeps_state [of "[]" both_store "[]"] e show ?thesis by blast
qed

subsection \<open>Idempotence\<close>

text \<open>
  C8. Running \<open>SET k v\<close> twice in a row leaves the keyspace as running it once does, and
  so does running \<open>HSET h f w\<close> twice: the same scalar namespace and the same hash
  namespace.
\<close>

theorem set_hset_idempotent:
  "snd (set_handler [k, v] (snd (set_handler [k, v] st))) = snd (set_handler [k, v] st) \<and>
   snd (hset [h, f, w] (snd (hset [h, f, w] st))) = snd (hset [h, f, w] st)"
  by (simp add: set_handler_def hset_def Let_def)

subsection \<open>DEL\<close>

lemma del_loop_count:
  "del_loop args st c = (st', c') \<Longrightarrow>
     dom (SETs st') \<subseteq> dom (SETs st) \<and> dom (HSETs st') \<subseteq> dom (HSETs st) \<and>
     finite (dom (SETs st) - dom (SETs st')) \<and> finite (dom (HSETs st) - dom (HSETs st')) \<and>
     c' = c + int (card (dom (SETs st) - dom (SETs st')) + card (dom (HSETs st) - dom (HSETs st')))"
proof (induction args arbitrary: st c)
  case Nil
  then show ?case by simp
next
  case (Cons a args)
  let ?k = "bulk a"
  let ?S = "SETs st" and ?H = "HSETs st" and ?S' = "SETs st'" and ?H' = "HSETs st'"
  show ?case
  proof (cases "?S ?k \<noteq> None")
    case True
    let ?st1 = "st\<lparr>SETs := ?S(?k := None)\<rparr>"
    from Cons.prems True have r: "del_loop args ?st1 (c + 1) = (st', c')" by simp
    have S1: "SETs ?st1 = ?S(?k := None)" and H1: "HSETs ?st1 = ?H" by simp_all
    note ih = Cons.IH [OF r, unfolded S1 H1]
    from ih have i1: "dom ?S' \<subseteq> dom (?S(?k := None))" by blast
    from ih have i2: "dom ?H' \<subseteq> dom ?H" by blast
    from ih have i3: "finite (dom (?S(?k := None)) - dom ?S')" by blast
    from ih have i4: "finite (dom ?H - dom ?H')" by blast
    from ih have i5: "c' = c + 1 + int (card (dom (?S(?k := None)) - dom ?S') + card (dom ?H - dom ?H'))"
      by blast
    from True have kin: "?k \<in> dom ?S" by auto
    from i1 kin have eq: "dom ?S - dom ?S' = insert ?k (dom (?S(?k := None)) - dom ?S')"
      by auto
    have notin: "?k \<notin> dom (?S(?k := None)) - dom ?S'" by simp
    from eq notin i3 have card: "card (dom ?S - dom ?S') = Suc (card (dom (?S(?k := None)) - dom ?S'))"
      by simp
    from i1 have sub: "dom ?S' \<subseteq> dom ?S" by auto
    from eq i3 have fin: "finite (dom ?S - dom ?S')" by simp
    from i5 card have cnt: "c' = c + int (card (dom ?S - dom ?S') + card (dom ?H - dom ?H'))" by simp
    from sub i2 fin i4 cnt show ?thesis by blast
  next
    case False
    note nS = this
    show ?thesis
    proof (cases "?H ?k \<noteq> None")
      case True
      let ?st1 = "st\<lparr>HSETs := ?H(?k := None)\<rparr>"
      from Cons.prems nS True have r: "del_loop args ?st1 (c + 1) = (st', c')" by simp
      have S1: "SETs ?st1 = ?S" and H1: "HSETs ?st1 = ?H(?k := None)" by simp_all
      note ih = Cons.IH [OF r, unfolded S1 H1]
      from ih have i1: "dom ?S' \<subseteq> dom ?S" by blast
      from ih have i2: "dom ?H' \<subseteq> dom (?H(?k := None))" by blast
      from ih have i3: "finite (dom ?S - dom ?S')" by blast
      from ih have i4: "finite (dom (?H(?k := None)) - dom ?H')" by blast
      from ih have i5: "c' = c + 1 + int (card (dom ?S - dom ?S') + card (dom (?H(?k := None)) - dom ?H'))"
        by blast
      from True have kin: "?k \<in> dom ?H" by auto
      from i2 kin have eq: "dom ?H - dom ?H' = insert ?k (dom (?H(?k := None)) - dom ?H')"
        by auto
      have notin: "?k \<notin> dom (?H(?k := None)) - dom ?H'" by simp
      from eq notin i4 have card: "card (dom ?H - dom ?H') = Suc (card (dom (?H(?k := None)) - dom ?H'))"
        by simp
      from i2 have sub: "dom ?H' \<subseteq> dom ?H" by auto
      from eq i4 have fin: "finite (dom ?H - dom ?H')" by simp
      from i5 card have cnt: "c' = c + int (card (dom ?S - dom ?S') + card (dom ?H - dom ?H'))" by simp
      from i1 sub i3 fin cnt show ?thesis by blast
    next
      case False
      from Cons.prems nS False have r: "del_loop args st c = (st', c')" by simp
      from Cons.IH [OF r] show ?thesis .
    qed
  qed
qed

lemma del_loop_le: "del_loop args st c = (st', c') \<Longrightarrow> c \<le> c' \<and> c' \<le> c + int (length args)"
proof (induction args arbitrary: st c)
  case Nil
  then show ?case by simp
next
  case (Cons a args)
  then show ?case by (fastforce simp: Let_def split: if_splits)
qed

lemma count_list_ge1_iff: "1 \<le> count_list xs x \<longleftrightarrow> x \<in> set xs"
  by (induction xs) auto

lemma del_loop_SETs:
  "SETs (fst (del_loop args st c)) k = (if k \<in> bulk ` set args then None else SETs st k)"
  by (induction args arbitrary: st c) (auto simp: Let_def)

lemma del_loop_HSETs:
  "HSETs (fst (del_loop args st c)) k =
     (if k \<in> bulk ` set args \<and> (SETs st k = None \<or> 2 \<le> count_list (map bulk args) k)
      then None else HSETs st k)"
proof (induction args arbitrary: st c)
  case Nil
  show ?case by simp
next
  case (Cons a args)
  let ?k = "bulk a"
  have mem: "2 \<le> Suc (count_list (map bulk args) ?k) \<longleftrightarrow> ?k \<in> bulk ` set args"
    using count_list_ge1_iff [of "map bulk args" ?k] by auto
  show ?case
  proof (cases "SETs st ?k \<noteq> None")
    case True
    let ?st1 = "st\<lparr>SETs := (SETs st)(?k := None)\<rparr>"
    from True have step: "del_loop (a # args) st c = del_loop args ?st1 (c + 1)" by simp
    have ih: "HSETs (fst (del_loop args ?st1 (c + 1))) k =
        (if k \<in> bulk ` set args \<and> (SETs ?st1 k = None \<or> 2 \<le> count_list (map bulk args) k)
         then None else HSETs ?st1 k)"
      by (rule Cons.IH)
    show ?thesis
    proof (cases "k = ?k")
      case True
      with \<open>SETs st ?k \<noteq> None\<close> mem show ?thesis unfolding step ih by auto
    next
      case False
      then show ?thesis unfolding step ih by auto
    qed
  next
    case False
    note nS = this
    show ?thesis
    proof (cases "HSETs st ?k \<noteq> None")
      case True
      let ?st1 = "st\<lparr>HSETs := (HSETs st)(?k := None)\<rparr>"
      from nS True have step: "del_loop (a # args) st c = del_loop args ?st1 (c + 1)" by simp
      have ih: "HSETs (fst (del_loop args ?st1 (c + 1))) k =
        (if k \<in> bulk ` set args \<and> (SETs ?st1 k = None \<or> 2 \<le> count_list (map bulk args) k)
         then None else HSETs ?st1 k)"
        by (rule Cons.IH)
      show ?thesis
      proof (cases "k = ?k")
        case True
        with nS show ?thesis unfolding step ih by auto
      next
        case False
        then show ?thesis unfolding step ih by auto
      qed
    next
      case False
      from nS False have step: "del_loop (a # args) st c = del_loop args st c" by simp
      have ih: "HSETs (fst (del_loop args st c)) k =
        (if k \<in> bulk ` set args \<and> (SETs st k = None \<or> 2 \<le> count_list (map bulk args) k)
         then None else HSETs st k)"
        by (rule Cons.IH)
      show ?thesis
      proof (cases "k = ?k")
        case True
        with nS False show ?thesis unfolding step ih by auto
      next
        case False
        then show ?thesis unfolding step ih by auto
      qed
    qed
  qed
qed

lemma del_loop_state_counter:
  "fst (del_loop args st c) = fst (del_loop args st d)"
proof (induction args arbitrary: st c d)
  case Nil
  show ?case by simp
next
  case (Cons a args)
  show ?case
    using Cons.IH [of "st\<lparr>SETs := (SETs st)(bulk a := None)\<rparr>" "c + 1" "d + 1"]
      Cons.IH [of "st\<lparr>HSETs := (HSETs st)(bulk a := None)\<rparr>" "c + 1" "d + 1"]
      Cons.IH [of st c d]
    by (simp add: Let_def)
qed

lemma del_state_stepwise:
  assumes "args \<noteq> []"
  shows "snd (del (a # args) st) = snd (del args (snd (del [a] st)))"
proof -
  have 1: "snd (del (a # args) st) = fst (del_loop (a # args) st 0)"
    by (simp add: del_def split: prod.splits)
  have 2: "snd (del [a] st) = fst (del_loop [a] st 0)"
    by (simp add: del_def split: prod.splits)
  from assms have 3: "\<And>s. snd (del args s) = fst (del_loop args s 0)"
    by (simp add: del_def split: prod.splits)
  have "fst (del_loop (a # args) st 0) = fst (del_loop args (fst (del_loop [a] st 0)) 0)"
    using del_loop_state_counter [of args _ 1 0] by (simp add: Let_def)
  with 1 2 3 show ?thesis by simp
qed

text \<open>
  C1, as the code has it. For every \<open>DEL\<close> with at least one argument the response is a
  simple string (kind \<open>string\<close>, not \<open>integer\<close>) whose text is the decimal number of
  entries removed from the two namespaces together. The arguments are handled from left to
  right, the first one and then the rest on the keyspace it leaves, and each removes at
  most one entry: the scalar of that name if there is one, otherwise the hash of that name
  if there is one. So after the call no argument names a scalar, and a hash named by an
  argument is gone exactly when the name had no scalar before the call or occurs at least
  twice among the arguments; every other entry is as it was, and the count is the number
  of the scalars and hashes so removed. In particular \<open>DEL k\<close> answers \<open>1\<close> when \<open>k\<close> is a
  scalar, whether or not it is a hash as well (the hash is then kept), \<open>1\<close> when \<open>k\<close> is a
  hash only, and \<open>0\<close> when \<open>k\<close> is in neither namespace.
\<close>

theorem del_counts_removed_entries:
  "1 \<le> length args \<Longrightarrow>
     (let st' = snd (del args st);
          n = card (dom (SETs st) - dom (SETs st')) + card (dom (HSETs st) - dom (HSETs st'))
      in fst (del args st) = string_Value (Itoa (int n)) \<and> n \<le> length args) \<and>
     SETs (snd (del args st)) = (\<lambda>k. if k \<in> bulk ` set args then None else SETs st k) \<and>
     HSETs (snd (del args st)) =
       (\<lambda>k. if k \<in> bulk ` set args \<and> (SETs st k = None \<or> 2 \<le> count_list (map bulk args) k)
            then None else HSETs st k) \<and>
     fst (del args st) =
       string_Value (Itoa (int
         (card {k \<in> bulk ` set args. SETs st k \<noteq> None} +
          card {k \<in> bulk ` set args. HSETs st k \<noteq> None \<and>
                 (SETs st k = None \<or> 2 \<le> count_list (map bulk args) k)}))) \<and>
     snd (del (a # args) st) = snd (del args (snd (del [a] st))) \<and>
     (SETs st (bulk a) \<noteq> None \<longrightarrow>
        del [a] st = (string_Value ''1'', st\<lparr>SETs := (SETs st)(bulk a := None)\<rparr>)) \<and>
     (SETs st (bulk a) = None \<and> HSETs st (bulk a) \<noteq> None \<longrightarrow>
        del [a] st = (string_Value ''1'', st\<lparr>HSETs := (HSETs st)(bulk a := None)\<rparr>)) \<and>
     (SETs st (bulk a) = None \<and> HSETs st (bulk a) = None \<longrightarrow>
        del [a] st = (string_Value ''0'', st))"
proof -
  assume len: "1 \<le> length args"
  obtain st' c' where r: "del_loop args st 0 = (st', c')" by (cases "del_loop args st 0")
  let ?n = "card (dom (SETs st) - dom (SETs st')) + card (dom (HSETs st) - dom (HSETs st'))"
  let ?keys = "bulk ` set args"
  let ?gone = "\<lambda>k. k \<in> ?keys \<and> (SETs st k = None \<or> 2 \<le> count_list (map bulk args) k)"
  from del_loop_count [OF r] have c': "c' = int ?n" by simp
  from del_loop_le [OF r] c' have le: "?n \<le> length args" by simp
  from len have ne: "args \<noteq> []" by auto
  from ne r have d: "del args st = (string_Value (Itoa c'), st')" by (simp add: del_def)
  from d c' le have general:
    "let st' = snd (del args st);
         n = card (dom (SETs st) - dom (SETs st')) + card (dom (HSETs st) - dom (HSETs st'))
     in fst (del args st) = string_Value (Itoa (int n)) \<and> n \<le> length args"
    by (simp add: Let_def)
  from r have st': "st' = fst (del_loop args st 0)" by simp
  have S: "SETs st' = (\<lambda>k. if k \<in> ?keys then None else SETs st k)"
    unfolding st' by (rule ext) (rule del_loop_SETs)
  have H: "HSETs st' = (\<lambda>k. if ?gone k then None else HSETs st k)"
    unfolding st' by (rule ext) (rule del_loop_HSETs)
  have dS: "dom (SETs st) - dom (SETs st') = {k \<in> ?keys. SETs st k \<noteq> None}"
    unfolding S by (auto simp: dom_def)
  have dH: "dom (HSETs st) - dom (HSETs st') = {k \<in> ?keys. HSETs st k \<noteq> None \<and>
                 (SETs st k = None \<or> 2 \<le> count_list (map bulk args) k)}"
    unfolding H by (auto simp: dom_def)
  from d c' have reply: "fst (del args st) =
       string_Value (Itoa (int
         (card {k \<in> ?keys. SETs st k \<noteq> None} +
          card {k \<in> ?keys. HSETs st k \<noteq> None \<and>
                 (SETs st k = None \<or> 2 \<le> count_list (map bulk args) k)})))"
    by (simp only: dS dH fst_conv)
  from d S have S': "SETs (snd (del args st)) = (\<lambda>k. if k \<in> ?keys then None else SETs st k)"
    by simp
  from d H have H': "HSETs (snd (del args st)) = (\<lambda>k. if ?gone k then None else HSETs st k)"
    by simp
  have step: "snd (del (a # args) st) = snd (del args (snd (del [a] st)))"
    by (rule del_state_stepwise [OF ne])
  have one: "SETs st (bulk a) \<noteq> None \<longrightarrow>
        del [a] st = (string_Value ''1'', st\<lparr>SETs := (SETs st)(bulk a := None)\<rparr>)"
    by (simp add: del_def Itoa_small)
  have hash: "SETs st (bulk a) = None \<and> HSETs st (bulk a) \<noteq> None \<longrightarrow>
        del [a] st = (string_Value ''1'', st\<lparr>HSETs := (HSETs st)(bulk a := None)\<rparr>)"
    by (simp add: del_def Itoa_small)
  have none: "SETs st (bulk a) = None \<and> HSETs st (bulk a) = None \<longrightarrow>
        del [a] st = (string_Value ''0'', st)"
    by (simp add: del_def Itoa_small)
  from general S' H' reply step one hash none show ?thesis by blast
qed

theorem del_counts_removed_entries_witness:
  "1 \<le> length [bulk_Value ''k''] \<and> SETs both_store (bulk (bulk_Value ''k'')) \<noteq> None \<and>
   del [bulk_Value ''k''] both_store =
     (string_Value ''1'', both_store\<lparr>SETs := (SETs both_store)(bulk (bulk_Value ''k'') := None)\<rparr>) \<and>
   1 \<le> length [bulk_Value ''a'', bulk_Value ''b''] \<and>
   fst (del [bulk_Value ''a'', bulk_Value ''b''] two_scalars) = string_Value ''2'' \<and>
   SETs (snd (del [bulk_Value ''a'', bulk_Value ''b''] two_scalars)) ''a'' = None \<and>
   SETs (snd (del [bulk_Value ''a'', bulk_Value ''b''] two_scalars)) ''b'' = None \<and>
   1 \<le> length [bulk_Value ''k'', bulk_Value ''k''] \<and>
   HSETs (snd (del [bulk_Value ''k'', bulk_Value ''k''] both_store)) ''k'' = None"
proof -
  have len: "1 \<le> length [bulk_Value ''k'']" by simp
  have pre: "SETs both_store (bulk (bulk_Value ''k'')) \<noteq> None"
    by (simp add: both_store_def bulk_Value_def)
  from del_counts_removed_entries [OF len, of both_store "bulk_Value ''k''"] pre
  have w1: "del [bulk_Value ''k''] both_store =
     (string_Value ''1'', both_store\<lparr>SETs := (SETs both_store)(bulk (bulk_Value ''k'') := None)\<rparr>)"
    by blast
  have len2: "1 \<le> length [bulk_Value ''a'', bulk_Value ''b'']" by simp
  have keys: "bulk ` set [bulk_Value ''a'', bulk_Value ''b''] = {''a'', ''b''}"
    by (simp add: bulk_Value_def)
  have c1: "{k \<in> {''a'', ''b''}. SETs two_scalars k \<noteq> None} = {''a'', ''b''}"
    by (auto simp: two_scalars_def)
  have c2: "{k \<in> {''a'', ''b''}. HSETs two_scalars k \<noteq> None \<and>
        (SETs two_scalars k = None \<or>
         2 \<le> count_list (map bulk [bulk_Value ''a'', bulk_Value ''b'']) k)} = {}"
    by (auto simp: two_scalars_def)
  have two: "Itoa (int (card {''a'', ''b''} + card ({} :: string set))) = ''2''"
    by (simp add: Itoa_def digits_lt10 digit_char_def)
  note t2 = del_counts_removed_entries [OF len2, of two_scalars "bulk_Value ''a''"]
  from t2 have "fst (del [bulk_Value ''a'', bulk_Value ''b''] two_scalars) =
       string_Value (Itoa (int
         (card {k \<in> bulk ` set [bulk_Value ''a'', bulk_Value ''b'']. SETs two_scalars k \<noteq> None} +
          card {k \<in> bulk ` set [bulk_Value ''a'', bulk_Value ''b''].
                 HSETs two_scalars k \<noteq> None \<and>
                 (SETs two_scalars k = None \<or>
                  2 \<le> count_list (map bulk [bulk_Value ''a'', bulk_Value ''b'']) k)})))"
    by blast
  then have w2: "fst (del [bulk_Value ''a'', bulk_Value ''b''] two_scalars) = string_Value ''2''"
    by (simp only: keys c1 c2 two)
  from t2 have S2: "SETs (snd (del [bulk_Value ''a'', bulk_Value ''b''] two_scalars)) =
      (\<lambda>k. if k \<in> bulk ` set [bulk_Value ''a'', bulk_Value ''b''] then None
            else SETs two_scalars k)"
    by blast
  have w3: "SETs (snd (del [bulk_Value ''a'', bulk_Value ''b''] two_scalars)) ''a'' = None"
    and w4: "SETs (snd (del [bulk_Value ''a'', bulk_Value ''b''] two_scalars)) ''b'' = None"
    unfolding S2 keys by simp_all
  have len3: "1 \<le> length [bulk_Value ''k'', bulk_Value ''k'']" by simp
  from del_counts_removed_entries [OF len3, of both_store "bulk_Value ''k''"]
  have H3: "HSETs (snd (del [bulk_Value ''k'', bulk_Value ''k''] both_store)) =
       (\<lambda>k. if k \<in> bulk ` set [bulk_Value ''k'', bulk_Value ''k''] \<and>
               (SETs both_store k = None \<or>
                2 \<le> count_list (map bulk [bulk_Value ''k'', bulk_Value ''k'']) k)
            then None else HSETs both_store k)"
    by blast
  have w5: "HSETs (snd (del [bulk_Value ''k'', bulk_Value ''k''] both_store)) ''k'' = None"
    unfolding H3 by (simp add: bulk_Value_def)
  from len pre w1 len2 w2 w3 w4 len3 w5 show ?thesis by blast
qed

text \<open>
  C1 as the specification states it fails on a key that is in both namespaces: the
  response is the simple string \<open>1\<close>, not an integer 2, and the hash is still there.
\<close>

theorem del_both_namespaces_counterexample:
  "fst (del [bulk_Value ''k''] both_store) = string_Value ''1'' \<and>
   HSETs (snd (del [bulk_Value ''k''] both_store)) ''k'' \<noteq> None \<and>
   \<not> (typ' (fst (del [bulk_Value ''k''] both_store)) = ''integer'' \<and>
      num (fst (del [bulk_Value ''k''] both_store)) = 2)"
  by (simp add: del_def both_store_def bulk_Value_def string_Value_def Itoa_small)

subsection \<open>HGETALL\<close>

lemma range_map_enum: "set ks \<subseteq> dom m \<Longrightarrow> range_map m ks = map (\<lambda>k. (k, the (m k))) ks"
  by (induction ks) (auto simp: range_map_def map_filter_simps)

lemma range_map_graph:
  assumes "distinct ks" "set ks = dom m"
  shows "distinct (range_map m ks) \<and> set (range_map m ks) = Map.graph m \<and>
         length (range_map m ks) = card (dom m)"
proof -
  from assms have rm: "range_map m ks = map (\<lambda>k. (k, the (m k))) ks"
    by (simp add: range_map_enum)
  have inj: "inj_on (\<lambda>k. (k, the (m k))) (set ks)" by (rule inj_onI) simp
  from assms(1) inj have d: "distinct (map (\<lambda>k. (k, the (m k))) ks)" by (simp add: distinct_map)
  from assms(2) have s: "set (map (\<lambda>k. (k, the (m k))) ks) = Map.graph m"
    by (auto simp: Map.graph_def image_iff)
  from assms have l: "length ks = card (dom m)" by (metis distinct_card)
  from rm d s l show ?thesis by simp
qed

lemma length_concat_pairs:
  "length (concat (map (\<lambda>(k, v). [f k, g v]) kvs)) = 2 * length kvs"
  by (induction kvs) auto

text \<open>
  C7. \<open>HGETALL\<close> with one argument returns the null Value when the hash is absent. When
  the hash is present and the loop visits its fields in the order \<open>ks\<close> (each field
  once), the response is an array of bulk strings of length twice the number of fields,
  made of the pairs field, value of the hash, each pair once and the value right after its
  field.
\<close>

theorem hgetall_pairs:
  "(HSETs st (bulk a) = None \<longrightarrow> hgetall ks [a] st = (null_Value, st)) \<and>
   (HSETs st (bulk a) = Some m \<and> distinct ks \<and> set ks = dom m \<longrightarrow>
      hgetall ks [a] st =
        (array_Value (concat (map (\<lambda>(k, v). [bulk_Value k, bulk_Value v]) (range_map m ks))), st) \<and>
      distinct (range_map m ks) \<and> set (range_map m ks) = Map.graph m \<and>
      length (array (fst (hgetall ks [a] st))) = 2 * card (dom m))"
proof -
  have absent: "HSETs st (bulk a) = None \<longrightarrow> hgetall ks [a] st = (null_Value, st)"
    by (simp add: hgetall_def)
  have present: "hgetall ks [a] st =
        (array_Value (concat (map (\<lambda>(k, v). [bulk_Value k, bulk_Value v]) (range_map m ks))), st) \<and>
      distinct (range_map m ks) \<and> set (range_map m ks) = Map.graph m \<and>
      length (array (fst (hgetall ks [a] st))) = 2 * card (dom m)"
    if h: "HSETs st (bulk a) = Some m" and d: "distinct ks" and s: "set ks = dom m"
  proof -
    from h have r: "hgetall ks [a] st =
        (array_Value (concat (map (\<lambda>(k, v). [bulk_Value k, bulk_Value v]) (range_map m ks))), st)"
      by (simp add: hgetall_def)
    note g = range_map_graph [OF d s]
    from r g have "length (array (fst (hgetall ks [a] st))) = 2 * card (dom m)"
      by (simp add: array_Value_def length_concat_pairs)
    with r g show ?thesis by blast
  qed
  from absent present show ?thesis by blast
qed

theorem hgetall_pairs_witness:
  "HSETs xy_store (bulk (bulk_Value ''h'')) = Some [''x'' \<mapsto> ''1'', ''y'' \<mapsto> ''2''] \<and>
   distinct [''y'', ''x''] \<and> set [''y'', ''x''] = dom [''x'' \<mapsto> ''1'', ''y'' \<mapsto> ''2''] \<and>
   hgetall [''y'', ''x''] [bulk_Value ''h''] xy_store =
     (array_Value [bulk_Value ''y'', bulk_Value ''2'', bulk_Value ''x'', bulk_Value ''1''], xy_store) \<and>
   length (array (fst (hgetall [''y'', ''x''] [bulk_Value ''h''] xy_store))) = 4 \<and>
   hgetall [''y'', ''x''] [bulk_Value ''g''] xy_store = (null_Value, xy_store)"
proof -
  let ?m = "[''x'' \<mapsto> ''1'', ''y'' \<mapsto> ''2'']"
  have h: "HSETs xy_store (bulk (bulk_Value ''h'')) = Some ?m"
    by (simp add: xy_store_def bulk_Value_def)
  have g: "HSETs xy_store (bulk (bulk_Value ''g'')) = None"
    by (simp add: xy_store_def bulk_Value_def)
  have d: "distinct [''y'', ''x'']" by simp
  have s: "set [''y'', ''x''] = dom ?m" by auto
  have c: "card (dom ?m) = 2" by simp
  have rm: "range_map ?m [''y'', ''x''] = [(''y'', ''2''), (''x'', ''1'')]"
    by (simp add: range_map_def map_filter_simps)
  from hgetall_pairs [of xy_store "bulk_Value ''h''" "[''y'', ''x'']" ?m] h d s c rm
  have p: "hgetall [''y'', ''x''] [bulk_Value ''h''] xy_store =
     (array_Value [bulk_Value ''y'', bulk_Value ''2'', bulk_Value ''x'', bulk_Value ''1''], xy_store) \<and>
   length (array (fst (hgetall [''y'', ''x''] [bulk_Value ''h''] xy_store))) = 4"
    by (simp add: array_Value_def)
  from hgetall_pairs [of xy_store "bulk_Value ''g''" "[''y'', ''x'']" ?m] g
  have a: "hgetall [''y'', ''x''] [bulk_Value ''g''] xy_store = (null_Value, xy_store)"
    by blast
  from h d s p a show ?thesis by blast
qed

section \<open>The codec\<close>

subsection \<open>Itoa and ParseInt\<close>

lemma digit_char_props:
  assumes "d < 10"
  shows "is_digit (digit_char d) \<and> digit_val (digit_char d) = d \<and> digit_char d \<noteq> CHR 0x0D \<and>
         digit_char d \<noteq> CHR ''+'' \<and> digit_char d \<noteq> CHR ''-''"
proof -
  from assms have "d = 0 \<or> d = 1 \<or> d = 2 \<or> d = 3 \<or> d = 4 \<or> d = 5 \<or> d = 6 \<or> d = 7 \<or> d = 8 \<or> d = 9"
    by arith
  then show ?thesis
    by (elim disjE) (simp_all add: digit_char_def is_digit_def digit_val_def)
qed

lemma digits_all_digit: "c \<in> set (digits n) \<Longrightarrow> is_digit c \<and> c \<noteq> CHR 0x0D"
proof (induction n arbitrary: c rule: digits.induct)
  case (1 n)
  show ?case
  proof (cases "n < 10")
    case True
    with "1.prems" have "c = digit_char n" by (simp add: digits.simps [of n])
    with True digit_char_props [of n] show ?thesis by simp
  next
    case False
    with "1.prems" have "c \<in> set (digits (n div 10)) \<or> c = digit_char (n mod 10)"
      by (auto simp: digits.simps [of n])
    then show ?thesis
    proof
      assume "c \<in> set (digits (n div 10))"
      with "1.IH" [OF False] show ?thesis .
    next
      assume "c = digit_char (n mod 10)"
      with digit_char_props [of "n mod 10"] show ?thesis by simp
    qed
  qed
qed

lemma digits_nonempty: "digits n \<noteq> []"
  by (subst digits.simps) simp

lemma ParseUint_loop_snoc:
  "ParseUint_loop acc (xs @ [c]) =
     (case ParseUint_loop acc xs of Inl e \<Rightarrow> Inl e | Inr m \<Rightarrow> ParseUint_loop m [c])"
  by (induction xs arbitrary: acc) (simp_all add: Let_def)

lemma ParseUint_loop_digits: "n \<le> maxUint64 \<Longrightarrow> ParseUint_loop 0 (digits n) = Inr n"
proof (induction n rule: digits.induct)
  case (1 n)
  show ?case
  proof (cases "n < 10")
    case True
    with "1.prems" digit_char_props [of n] show ?thesis
      by (simp add: digits.simps [of n] maxUint64_def)
  next
    case False
    from "1.prems" have small: "n div 10 \<le> maxUint64" by simp
    from "1.IH" [OF False small] have ih: "ParseUint_loop 0 (digits (n div 10)) = Inr (n div 10)" .
    from "1.prems" have lt: "\<not> (n div 10 \<ge> maxUint64 div 10 + 1)"
      by (simp add: maxUint64_def)
    have dc: "is_digit (digit_char (n mod 10))" "digit_val (digit_char (n mod 10)) = n mod 10"
      using digit_char_props [of "n mod 10"] by simp_all
    have recompose: "n div 10 * 10 + n mod 10 = n" by simp
    from False have "ParseUint_loop 0 (digits n) =
        ParseUint_loop 0 (digits (n div 10) @ [digit_char (n mod 10)])"
      by (simp add: digits.simps [of n])
    also have "\<dots> = ParseUint_loop (n div 10) [digit_char (n mod 10)]"
      by (simp add: ParseUint_loop_snoc ih)
    also from lt dc recompose "1.prems" have "\<dots> = Inr n"
      by (simp add: Let_def)
    finally show ?thesis .
  qed
qed

lemma ParseInt_Itoa:
  assumes "n < 2 ^ 63"
  shows "ParseInt (Itoa (int n)) = Inr (int n)"
proof -
  have ne: "digits n \<noteq> []" by (rule digits_nonempty)
  then have "hd (digits n) \<in> set (digits n)" by simp
  then have d: "is_digit (hd (digits n))" by (simp add: digits_all_digit)
  have sign: "hd (digits n) \<noteq> CHR ''+''" "hd (digits n) \<noteq> CHR ''-''"
    using d by (auto simp: is_digit_def)
  from assms have "n \<le> maxUint64" by (simp add: maxUint64_def)
  then have p: "ParseUint (digits n) = Inr n"
    using ne by (simp add: ParseUint_def ParseUint_loop_digits)
  from ne sign p assms show ?thesis
    by (simp add: ParseInt_def Itoa_def Let_def)
qed

lemma Itoa_no_CR: "CHR 0x0D \<notin> set (Itoa (int n))"
  using digits_all_digit [of "CHR 0x0D" n] by (auto simp: Itoa_def)

subsection \<open>Reading from a buffer that holds the whole value\<close>

lemma bufio_ReadByte_buffered:
  "bufio_ReadByte \<lparr>buf = c # cs, rd = u\<rparr> = (Inr c, \<lparr>buf = cs, rd = u\<rparr>)"
  by (simp add: bufio_ReadByte_def)

lemma readLine_stop_iff:
  "(2 \<le> length (line @ [b]) \<and> (line @ [b]) ! (length (line @ [b]) - 2) = c) =
   (line \<noteq> [] \<and> last line = c)"
proof (cases "line = []")
  case True
  then show ?thesis by simp
next
  case False
  then have "length line - 1 < length line" and "1 \<le> length line" by (cases line, simp_all)+
  with False show ?thesis by (simp add: nth_append last_conv_nth)
qed

lemma readLine_loop_step:
  "readLine_loop line n \<lparr>buf = b # bs, rd = u\<rparr> =
     (if line \<noteq> [] \<and> last line = CHR 0x0D
      then (Inr (take (length line - 1) (line @ [b]), n + 1), \<lparr>buf = bs, rd = u\<rparr>)
      else readLine_loop (line @ [b]) (n + 1) \<lparr>buf = bs, rd = u\<rparr>)"
  by (subst readLine_loop.simps)
     (simp only: bufio_ReadByte_buffered prod.case sum.case Let_def readLine_stop_iff, simp)

lemma readLine_loop_buffered:
  assumes "CHR 0x0D \<notin> set s" and "line = [] \<or> last line \<noteq> CHR 0x0D"
  shows "readLine_loop line n \<lparr>buf = s @ CRLF @ rest, rd = u\<rparr> =
           (Inr (line @ s, n + length s + 2), \<lparr>buf = rest, rd = u\<rparr>)"
  using assms
proof (induction s arbitrary: line n)
  case Nil
  have 1: "readLine_loop line n \<lparr>buf = CHR 0x0D # CHR 0x0A # rest, rd = u\<rparr> =
        readLine_loop (line @ [CHR 0x0D]) (n + 1) \<lparr>buf = CHR 0x0A # rest, rd = u\<rparr>"
    using Nil.prems(2) by (subst readLine_loop_step) auto
  have 2: "readLine_loop (line @ [CHR 0x0D]) (n + 1) \<lparr>buf = CHR 0x0A # rest, rd = u\<rparr> =
        (Inr (line, n + 2), \<lparr>buf = rest, rd = u\<rparr>)"
    by (subst readLine_loop_step) simp
  from 1 2 show ?case by (simp add: CRLF_def)
next
  case (Cons c s)
  from Cons.prems(1) have c: "c \<noteq> CHR 0x0D" and s: "CHR 0x0D \<notin> set s" by auto
  have 1: "readLine_loop line n \<lparr>buf = c # s @ CRLF @ rest, rd = u\<rparr> =
        readLine_loop (line @ [c]) (n + 1) \<lparr>buf = s @ CRLF @ rest, rd = u\<rparr>"
    using Cons.prems(2) by (subst readLine_loop_step) auto
  from c have l: "line @ [c] = [] \<or> last (line @ [c]) \<noteq> CHR 0x0D" by simp
  from 1 Cons.IH [OF s l, of "n + 1"] show ?case by simp
qed

lemma readLine_buffered:
  "CHR 0x0D \<notin> set s \<Longrightarrow>
     readLine \<lparr>buf = s @ CRLF @ rest, rd = u\<rparr> = (Inr (s, length s + 2), \<lparr>buf = rest, rd = u\<rparr>)"
  using readLine_loop_buffered [of s "[]" 0 rest u] by (simp add: readLine_def)

lemma readInteger_buffered:
  "n < 2 ^ 63 \<Longrightarrow>
     readInteger \<lparr>buf = Itoa (int n) @ CRLF @ rest, rd = u\<rparr> =
       (Inr (int n, length (Itoa (int n)) + 2), \<lparr>buf = rest, rd = u\<rparr>)"
  by (simp add: readInteger_def readLine_buffered Itoa_no_CR ParseInt_Itoa)

lemma bufio_Read_buffered:
  "bufio_Read (length b) \<lparr>buf = b @ rest, rd = u\<rparr> = (b, \<lparr>buf = rest, rd = u\<rparr>)"
  by (cases b) (simp_all add: bufio_Read_def)

lemma readBulk_buffered:
  assumes "length b < 2 ^ 63"
  shows "readBulk \<lparr>buf = Itoa (int (length b)) @ CRLF @ b @ CRLF @ rest, rd = u\<rparr> =
           (Inr (bulk_Value b), \<lparr>buf = rest, rd = u\<rparr>)"
proof -
  have l: "readLine \<lparr>buf = CRLF @ rest, rd = u\<rparr> = (Inr ([], 2), \<lparr>buf = rest, rd = u\<rparr>)"
    using readLine_buffered [of "[]" rest u] by simp
  have r: "bufio_Read (length b) \<lparr>buf = b @ CRLF @ rest, rd = u\<rparr> = (b, \<lparr>buf = CRLF @ rest, rd = u\<rparr>)"
    by (rule bufio_Read_buffered)
  from assms l r show ?thesis
    by (simp add: readBulk_def readInteger_buffered bulk_Value_def)
qed

lemma Marshal_bulk: "Marshal (Value ''bulk'' s n b a) = [BULK] @ Itoa (int (length b)) @ CRLF @ b @ CRLF"
  by (simp add: marshalBulk_def)

lemma Marshal_array:
  "Marshal (Value ''array'' s n b a) = [ARRAY] @ Itoa (int (length a)) @ CRLF @ concat (map Marshal a)"
  by simp

lemma wire_tree_Marshal_nonempty:
  assumes "wire_tree v"
  shows "Marshal v \<noteq> []"
proof (cases v)
  case (Value t s n b a)
  show ?thesis
  proof (cases "t = ''bulk''")
    case True
    with Value show ?thesis by (simp add: marshalBulk_def)
  next
    case False
    with assms Value have "t = ''array''" by simp
    with Value show ?thesis by (simp add: Marshal_array del: Marshal.simps)
  qed
qed

lemma length_concat_ge_member:
  "x \<in> set xs \<Longrightarrow> length (f x) \<le> length (concat (map f xs))"
  by (induction xs) auto

lemma length_le_concat_nonempty:
  "(\<And>x. x \<in> set xs \<Longrightarrow> f x \<noteq> []) \<Longrightarrow> length xs \<le> length (concat (map f xs))"
proof (induction xs)
  case Nil
  show ?case by simp
next
  case (Cons x xs)
  have "f x \<noteq> []" by (simp add: Cons.prems)
  then have "1 \<le> length (f x)" by (cases "f x") simp_all
  moreover have "length xs \<le> length (concat (map f xs))" by (rule Cons.IH) (simp add: Cons.prems)
  ultimately show ?case by simp
qed

lemma Read_ARRAY_buffered:
  "Read \<lparr>buf = ARRAY # bs, rd = u\<rparr> = readArray \<lparr>buf = bs, rd = u\<rparr>"
  by (subst Read.simps) (simp add: bufio_ReadByte_buffered)

lemma Read_BULK_buffered:
  "Read \<lparr>buf = BULK # bs, rd = u\<rparr> = readBulk \<lparr>buf = bs, rd = u\<rparr>"
  by (subst Read.simps) (simp add: bufio_ReadByte_buffered BULK_def ARRAY_def)

lemma readArray_loop_buffered:
  assumes ih: "\<And>x rest. x \<in> set cs \<Longrightarrow>
                 Read \<lparr>buf = Marshal x @ rest, rd = u\<rparr> = (Inr x, \<lparr>buf = rest, rd = u\<rparr>)"
    and len: "len = i + int (length cs)"
  shows "readArray_loop i len (Value ''array'' [] 0 [] acc)
           \<lparr>buf = concat (map Marshal cs) @ rest, rd = u\<rparr> =
         (Inr (Value ''array'' [] 0 [] (acc @ cs)), \<lparr>buf = rest, rd = u\<rparr>)"
  using assms
proof (induction cs arbitrary: i acc)
  case Nil
  then show ?case by (subst readArray_loop.simps) simp
next
  case (Cons c cs)
  from Cons.prems(2) have lt: "i < len" and len': "len = (i + 1) + int (length cs)" by simp_all
  have rd: "Read \<lparr>buf = Marshal c @ concat (map Marshal cs) @ rest, rd = u\<rparr> =
              (Inr c, \<lparr>buf = concat (map Marshal cs) @ rest, rd = u\<rparr>)"
    by (rule Cons.prems(1)) simp
  have ih': "\<And>x rest. x \<in> set cs \<Longrightarrow>
                 Read \<lparr>buf = Marshal x @ rest, rd = u\<rparr> = (Inr x, \<lparr>buf = rest, rd = u\<rparr>)"
    by (rule Cons.prems(1)) simp
  have "readArray_loop i len (Value ''array'' [] 0 [] acc)
           \<lparr>buf = concat (map Marshal (c # cs)) @ rest, rd = u\<rparr> =
        readArray_loop (i + 1) len (Value ''array'' [] 0 [] (acc @ [c]))
           \<lparr>buf = concat (map Marshal cs) @ rest, rd = u\<rparr>"
    using lt by (subst readArray_loop.simps) (simp add: rd append_array_def)
  also have "\<dots> = (Inr (Value ''array'' [] 0 [] ((acc @ [c]) @ cs)), \<lparr>buf = rest, rd = u\<rparr>)"
    by (rule Cons.IH [OF ih' len'])
  finally show ?case by simp
qed

lemma Read_Marshal_buffered:
  "wire_tree v \<Longrightarrow> length (Marshal v) < 2 ^ 63 \<Longrightarrow>
     Read \<lparr>buf = Marshal v @ rest, rd = u\<rparr> = (Inr v, \<lparr>buf = rest, rd = u\<rparr>)"
proof (induction v arbitrary: rest)
  case (Value t s n b a)
  from Value.prems(1) have s: "s = []" and n: "n = 0" by simp_all
  show ?case
  proof (cases "t = ''bulk''")
    case True
    with Value.prems(1) have a: "a = []" by simp
    from Value.prems(2) True have "length b < 2 ^ 63" by (simp add: marshalBulk_def)
    from readBulk_buffered [OF this, of rest u] True s n a show ?thesis
      by (simp add: marshalBulk_def Read_BULK_buffered bulk_Value_def)
  next
    case False
    with Value.prems(1) have t: "t = ''array''" and b: "b = []" and wa: "list_all wire_tree a"
      by (simp_all split: if_splits)
    from Value.prems(2) t have bound: "length (concat (map Marshal a)) < 2 ^ 63" by simp
    have ne: "\<And>x. x \<in> set a \<Longrightarrow> Marshal x \<noteq> []"
      using wa by (simp add: list_all_iff wire_tree_Marshal_nonempty)
    from length_le_concat_nonempty [of a Marshal, OF ne] bound have la: "length a < 2 ^ 63" by simp
    have ih: "\<And>x rest. x \<in> set a \<Longrightarrow>
                 Read \<lparr>buf = Marshal x @ rest, rd = u\<rparr> = (Inr x, \<lparr>buf = rest, rd = u\<rparr>)"
    proof -
      fix x rest assume x: "x \<in> set a"
      from x wa have w: "wire_tree x" by (simp add: list_all_iff)
      from length_concat_ge_member [OF x, of Marshal] bound have l: "length (Marshal x) < 2 ^ 63"
        by simp
      from Value.IH [OF x w l] show "Read \<lparr>buf = Marshal x @ rest, rd = u\<rparr> = (Inr x, \<lparr>buf = rest, rd = u\<rparr>)" .
    qed
    have loop: "readArray_loop 0 (int (length a)) (Value ''array'' [] 0 [] [])
           \<lparr>buf = concat (map Marshal a) @ rest, rd = u\<rparr> =
         (Inr (Value ''array'' [] 0 [] ([] @ a)), \<lparr>buf = rest, rd = u\<rparr>)"
      by (rule readArray_loop_buffered [OF ih]) simp_all
    have "readArray \<lparr>buf = Itoa (int (length a)) @ CRLF @ concat (map Marshal a) @ rest, rd = u\<rparr> =
          (Inr (Value ''array'' [] 0 [] a), \<lparr>buf = rest, rd = u\<rparr>)"
      using loop by (subst readArray.simps) (simp add: readInteger_buffered [OF la])
    with t s n b show ?thesis by (simp add: Read_ARRAY_buffered)
  qed
qed

lemma Read_refill:
  assumes "bytes \<noteq> []"
  shows "Read \<lparr>buf = [], rd = bytes\<rparr> =
         Read \<lparr>buf = take defaultBufSize bytes, rd = drop defaultBufSize bytes\<rparr>"
proof -
  from assms obtain c cs where b: "bytes = c # cs" by (cases bytes) auto
  then have t: "take defaultBufSize bytes = c # take (defaultBufSize - 1) cs"
    by (simp add: defaultBufSize_def)
  have 1: "bufio_ReadByte \<lparr>buf = [], rd = bytes\<rparr> =
           bufio_ReadByte \<lparr>buf = take defaultBufSize bytes, rd = drop defaultBufSize bytes\<rparr>"
    unfolding bufio_ReadByte_def using t by simp
  show ?thesis
    by (simp only: 1
          Read.simps [of "\<lparr>buf = [], rd = bytes\<rparr>"]
          Read.simps [of "\<lparr>buf = take defaultBufSize bytes, rd = drop defaultBufSize bytes\<rparr>"])
qed

lemma Read_fill:
  "bytes \<noteq> [] \<Longrightarrow> length bytes \<le> defaultBufSize \<Longrightarrow>
     Read \<lparr>buf = [], rd = bytes @ rest\<rparr> =
     Read \<lparr>buf = bytes @ take (defaultBufSize - length bytes) rest,
           rd = drop (defaultBufSize - length bytes) rest\<rparr>"
proof -
  assume ne: "bytes \<noteq> []" and le: "length bytes \<le> defaultBufSize"
  then obtain c cs where b: "bytes = c # cs" by (cases bytes) auto
  from le have "take defaultBufSize (bytes @ rest) = bytes @ take (defaultBufSize - length bytes) rest"
    by simp
  with b have fill: "take defaultBufSize (bytes @ rest) = c # cs @ take (defaultBufSize - length bytes) rest"
    by simp
  from le have rest: "drop defaultBufSize (bytes @ rest) = drop (defaultBufSize - length bytes) rest"
    by simp
  have 1: "bufio_ReadByte \<lparr>buf = [], rd = bytes @ rest\<rparr> =
           bufio_ReadByte \<lparr>buf = bytes @ take (defaultBufSize - length bytes) rest,
                           rd = drop (defaultBufSize - length bytes) rest\<rparr>"
    unfolding bufio_ReadByte_def using fill rest b by simp
  show ?thesis
    by (simp only: 1
          Read.simps [of "\<lparr>buf = [], rd = bytes @ rest\<rparr>"]
          Read.simps [of "\<lparr>buf = bytes @ take (defaultBufSize - length bytes) rest,
                          rd = drop (defaultBufSize - length bytes) rest\<rparr>"])
qed

lemma Read_other_buffered:
  "c \<noteq> ARRAY \<Longrightarrow> c \<noteq> BULK \<Longrightarrow>
     Read \<lparr>buf = c # bs, rd = u\<rparr> = (Inr zero_Value, \<lparr>buf = bs, rd = u\<rparr>)"
  by (subst Read.simps) (simp add: bufio_ReadByte_buffered)

lemma Read_NewResp_small:
  "bytes \<noteq> [] \<Longrightarrow> length bytes \<le> defaultBufSize \<Longrightarrow>
     Read (NewResp bytes) = Read \<lparr>buf = bytes, rd = []\<rparr>"
  using Read_fill [of bytes "[]"] by (simp add: NewResp_def NewReader_def)

subsection \<open>Decoding an encoding\<close>

text \<open>
  C2, as the code has it. For every Value tree made of bulk strings and arrays only
  (\<^const>\<open>wire_tree\<close>) whose encoding is not longer than the reader's buffer of 4096
  bytes, decoding the encoding gives back the tree, and the reader has consumed the
  encoding and nothing else.
\<close>

theorem Read_Marshal_roundtrip:
  assumes "wire_tree v" and "length (Marshal v) \<le> defaultBufSize"
  shows "Read (NewResp (Marshal v @ rest)) =
           (Inr v, \<lparr>buf = take (defaultBufSize - length (Marshal v)) rest,
                    rd = drop (defaultBufSize - length (Marshal v)) rest\<rparr>)"
proof -
  from assms(1) have ne: "Marshal v \<noteq> []" by (rule wire_tree_Marshal_nonempty)
  from assms(2) have small: "length (Marshal v) < 2 ^ 63" by (simp add: defaultBufSize_def)
  have "Read (NewResp (Marshal v @ rest)) =
        Read \<lparr>buf = Marshal v @ take (defaultBufSize - length (Marshal v)) rest,
              rd = drop (defaultBufSize - length (Marshal v)) rest\<rparr>"
    unfolding NewResp_def NewReader_def by (rule Read_fill [OF ne assms(2)])
  also have "\<dots> = (Inr v, \<lparr>buf = take (defaultBufSize - length (Marshal v)) rest,
                          rd = drop (defaultBufSize - length (Marshal v)) rest\<rparr>)"
    by (rule Read_Marshal_buffered [OF assms(1) small])
  finally show ?thesis .
qed

theorem Read_Marshal_roundtrip_witness:
  "wire_tree (cmd [''SET'', ''a'', ''1'']) \<and>
   length (Marshal (cmd [''SET'', ''a'', ''1''])) \<le> defaultBufSize \<and>
   Read (NewResp (Marshal (cmd [''SET'', ''a'', ''1'']))) =
     (Inr (cmd [''SET'', ''a'', ''1'']), \<lparr>buf = [], rd = []\<rparr>)"
proof -
  have w: "wire_tree (cmd [''SET'', ''a'', ''1''])"
    by (simp add: cmd_def array_Value_def bulk_Value_def)
  have l: "length (Marshal (cmd [''SET'', ''a'', ''1''])) \<le> defaultBufSize"
    by (simp add: cmd_def array_Value_def bulk_Value_def marshalBulk_def Itoa_digit CRLF_def
          defaultBufSize_def)
  from Read_Marshal_roundtrip [OF w l, of "[]"] w l show ?thesis by simp
qed

lemma readLine_minus_one:
  "readLine \<lparr>buf = ''-1'' @ CRLF @ rest, rd = u\<rparr> = (Inr (''-1'', 4), \<lparr>buf = rest, rd = u\<rparr>)"
  using readLine_buffered [of "''-1''" rest u] by simp

lemma ParseInt_minus_one: "ParseInt ''-1'' = Inr (- 1)"
  by (simp add: ParseInt_def ParseUint_def is_digit_def digit_val_def maxUint64_def Let_def)

text \<open>
  A bulk string that does not fit the buffer: \<open>readBulk\<close> asks \<open>bufio.Reader.Read\<close> for
  5000 bytes once and gets the 4089 that are buffered; the other 911 bytes of the slice
  stay zero.
\<close>

lemma Read_large_bulk:
  "fst (Read (NewResp (Marshal (bulk_Value (replicate 5000 CHR ''a''))))) =
     Inr (bulk_Value (replicate 4089 CHR ''a'' @ replicate 911 (CHR 0x00)))"
proof -
  let ?a = "replicate 5000 CHR ''a''"
  let ?R = "replicate 911 CHR ''a'' @ CRLF"
  have m: "Marshal (bulk_Value ?a) = (BULK # Itoa (int 5000) @ CRLF) @ ?a @ CRLF"
    by (simp add: bulk_Value_def marshalBulk_def)
  have lh: "length (BULK # Itoa (int 5000) @ CRLF) = 7"
    by (simp add: Itoa_small CRLF_def)
  have tk: "take defaultBufSize (Marshal (bulk_Value ?a)) =
            BULK # Itoa (int 5000) @ CRLF @ replicate 4089 CHR ''a''"
    unfolding m by (simp add: lh defaultBufSize_def Itoa_small CRLF_def)
  have dr: "drop defaultBufSize (Marshal (bulk_Value ?a)) = ?R"
    unfolding m by (simp add: lh defaultBufSize_def Itoa_small CRLF_def)
  have ne: "Marshal (bulk_Value ?a) \<noteq> []" unfolding m by simp
  have "Read (NewResp (Marshal (bulk_Value ?a))) =
        Read \<lparr>buf = BULK # Itoa (int 5000) @ CRLF @ replicate 4089 CHR ''a'', rd = ?R\<rparr>"
    unfolding NewResp_def NewReader_def by (simp only: Read_refill [OF ne] tk dr)
  also have "\<dots> = readBulk \<lparr>buf = Itoa (int 5000) @ CRLF @ replicate 4089 CHR ''a'', rd = ?R\<rparr>"
    by (rule Read_BULK_buffered)
  finally have r: "Read (NewResp (Marshal (bulk_Value ?a))) =
        readBulk \<lparr>buf = Itoa (int 5000) @ CRLF @ replicate 4089 CHR ''a'', rd = ?R\<rparr>" .
  have ri: "readInteger \<lparr>buf = Itoa (int 5000) @ CRLF @ replicate 4089 CHR ''a'', rd = ?R\<rparr> =
        (Inr (int 5000, length (Itoa (int 5000)) + 2), \<lparr>buf = replicate 4089 CHR ''a'', rd = ?R\<rparr>)"
    by (rule readInteger_buffered) simp
  have br: "bufio_Read 5000 \<lparr>buf = replicate 4089 CHR ''a'', rd = ?R\<rparr> =
        (replicate 4089 CHR ''a'', \<lparr>buf = [], rd = ?R\<rparr>)"
    by (simp add: bufio_Read_def)
  have "fst (readBulk \<lparr>buf = Itoa (int 5000) @ CRLF @ replicate 4089 CHR ''a'', rd = ?R\<rparr>) =
        Inr (bulk_Value (replicate 4089 CHR ''a'' @ replicate 911 (CHR 0x00)))"
    unfolding readBulk_def by (simp only: ri prod.case sum.case) (simp add: br bulk_Value_def split: prod.splits)
  with r show ?thesis by simp
qed

text \<open>
  C2 as the specification states it fails on a simple string: the decoder answers the
  type byte \<open>+\<close> with the zero Value and leaves the rest of the encoding unread. It fails on
  the null Value too: its encoding \<open>$-1\<close> makes \<open>readBulk\<close> allocate a slice of length -1,
  which panics. And it fails on a bulk string of 5000 bytes, which comes back with its
  last 911 bytes zero.
\<close>

theorem Read_Marshal_string_counterexample:
  "Read (NewResp (Marshal (string_Value ''OK''))) =
     (Inr zero_Value, \<lparr>buf = ''OK'' @ CRLF, rd = []\<rparr>) \<and>
   zero_Value \<noteq> string_Value ''OK'' \<and>
   fst (Read (NewResp (Marshal null_Value))) = Inl PanicMakeslice \<and>
   fst (Read (NewResp (Marshal (bulk_Value (replicate 5000 CHR ''a''))))) =
     Inr (bulk_Value (replicate 4089 CHR ''a'' @ replicate 911 (CHR 0x00))) \<and>
   bulk_Value (replicate 4089 CHR ''a'' @ replicate 911 (CHR 0x00)) \<noteq>
     bulk_Value (replicate 5000 CHR ''a'')"
proof -
  have ms: "Marshal (string_Value ''OK'') = STRING # ''OK'' @ CRLF"
    by (simp add: string_Value_def marshalString_def)
  have "Read (NewResp (STRING # ''OK'' @ CRLF)) = Read \<lparr>buf = STRING # ''OK'' @ CRLF, rd = []\<rparr>"
    by (rule Read_NewResp_small) (simp_all add: CRLF_def defaultBufSize_def)
  also have "\<dots> = (Inr zero_Value, \<lparr>buf = ''OK'' @ CRLF, rd = []\<rparr>)"
    by (rule Read_other_buffered) (simp_all add: STRING_def ARRAY_def BULK_def)
  finally have 1: "Read (NewResp (Marshal (string_Value ''OK''))) =
     (Inr zero_Value, \<lparr>buf = ''OK'' @ CRLF, rd = []\<rparr>)"
    by (simp only: ms)
  have 2: "zero_Value \<noteq> string_Value ''OK''"
    by (simp add: zero_Value_def string_Value_def)
  have ri: "readInteger \<lparr>buf = ''-1'' @ CRLF @ [], rd = []\<rparr> = (Inr (- 1, 4), \<lparr>buf = [], rd = []\<rparr>)"
    by (simp only: readInteger_def readLine_minus_one ParseInt_minus_one prod.case sum.case)
  have mn: "Marshal null_Value = BULK # ''-1'' @ CRLF @ []"
    by (simp add: null_Value_def marshallNull_def BULK_def)
  have "Read (NewResp (BULK # ''-1'' @ CRLF @ [])) = Read \<lparr>buf = BULK # ''-1'' @ CRLF @ [], rd = []\<rparr>"
    by (rule Read_NewResp_small) (simp_all add: CRLF_def defaultBufSize_def)
  also have "\<dots> = (Inl PanicMakeslice, \<lparr>buf = [], rd = []\<rparr>)"
    by (simp only: Read_BULK_buffered readBulk_def ri prod.case sum.case) simp
  finally have 3: "fst (Read (NewResp (Marshal null_Value))) = Inl PanicMakeslice"
    by (simp only: mn fst_conv)
  have "set (replicate 4089 CHR ''a'' @ replicate 911 (CHR 0x00)) \<noteq> set (replicate 5000 CHR ''a'')"
    by simp
  then have 4: "bulk_Value (replicate 4089 CHR ''a'' @ replicate 911 (CHR 0x00)) \<noteq>
     bulk_Value (replicate 5000 CHR ''a'')"
    unfolding bulk_Value_def by (metis Value.inject)
  from 1 2 3 4 Read_large_bulk show ?thesis by blast
qed

section \<open>The server loop and the replay\<close>

lemma ToUpper_tests: "ToUpper U ''set'' = ''SET''" "ToUpper U ''HSET'' = ''HSET''" "ToUpper U ''DEL'' = ''DEL''"
  "ToUpper U ''SET'' = ''SET''" "ToUpper U ''FOO'' = ''FOO''"
  by (simp_all add: ToUpper_def toUpper_ascii_def char_of_def bit_Suc_0_iff)

lemma Aof_Read_loop_buffered:
  assumes "wire_tree v" and "length (Marshal v) < 2 ^ 63"
  shows "Aof_Read_loop fn \<lparr>buf = Marshal v @ rest, rd = u\<rparr> st =
           (case fn v st of
              Inl p \<Rightarrow> (Some p, st)
            | Inr st' \<Rightarrow> Aof_Read_loop fn \<lparr>buf = rest, rd = u\<rparr> st')"
  by (subst Aof_Read_loop.simps) (simp add: Read_Marshal_buffered [OF assms])

lemma Aof_Read_loop_end: "Aof_Read_loop fn \<lparr>buf = [], rd = []\<rparr> st = (None, st)"
  by (subst Aof_Read_loop.simps) (simp add: Read.simps bufio_ReadByte_def)

lemma Aof_Read_small:
  assumes "bytes \<noteq> []" and "length bytes \<le> defaultBufSize"
  shows "Aof_Read fn bytes st = Aof_Read_loop fn \<lparr>buf = bytes, rd = []\<rparr> st"
  unfolding Aof_Read_def
  by (simp only: Aof_Read_loop.simps [of fn "NewResp bytes"]
        Aof_Read_loop.simps [of fn "\<lparr>buf = bytes, rd = []\<rparr>"]
        Read_NewResp_small [OF assms])

lemma Handlers_lookup:
  "Handlers ks ''SET'' = Some set_handler"
  "Handlers ks ''HSET'' = Some hset"
  "Handlers ks ''DEL'' = Some del"
  "Handlers ks ''FOO'' = None"
  by (simp_all add: Handlers_def)

lemma wire_tree_cmd: "wire_tree (cmd ws)"
  by (simp add: cmd_def array_Value_def bulk_Value_def list_all_iff)

lemma replay_fn_cmd:
  "replay_fn U ks (cmd [''SET'', k, v]) st = Inr (snd (set_handler [bulk_Value k, bulk_Value v] st))"
  "replay_fn U ks (cmd [''HSET'', h, f, v]) st =
     Inr (snd (hset [bulk_Value h, bulk_Value f, bulk_Value v] st))"
  by (simp_all add: replay_fn_def cmd_def array_Value_def bulk_Value_def ToUpper_tests Handlers_lookup)

lemma serve_request_SET:
  "serve_request U ks (cmd [''SET'', k, v]) sv =
     sv\<lparr>aof_file := aof_file sv @ Marshal (cmd [''SET'', k, v]),
        keyspace := snd (set_handler [bulk_Value k, bulk_Value v] (keyspace sv)),
        conn_out := conn_out sv @ Marshal (fst (set_handler [bulk_Value k, bulk_Value v] (keyspace sv)))\<rparr>"
  by (simp add: serve_request_def cmd_def array_Value_def bulk_Value_def ToUpper_tests
        Handlers_lookup Aof_Write_def Writer_Write_def split: prod.splits)

lemma serve_request_DEL:
  "serve_request U ks (cmd [''DEL'', k]) sv =
     sv\<lparr>keyspace := snd (del [bulk_Value k] (keyspace sv)),
        conn_out := conn_out sv @ Marshal (fst (del [bulk_Value k] (keyspace sv)))\<rparr>"
  by (simp add: serve_request_def cmd_def array_Value_def bulk_Value_def ToUpper_tests
        Handlers_lookup Writer_Write_def split: prod.splits)

text \<open>
  C6. For every request that is an array with at least one element whose command name,
  in upper case, is not in the registry, the server writes the encoding of the empty
  simple string, the three bytes \<open>+\<close>, CR, LF, to the connection, and changes neither the
  keyspace nor the file.
\<close>

theorem unknown_command_reply:
  assumes "typ' value = ''array''" and "array value \<noteq> []"
    and "Handlers ks (ToUpper U (bulk (array value ! 0))) = None"
  shows "serve_request U ks value sv = sv\<lparr>conn_out := conn_out sv @ Marshal (string_Value [])\<rparr> \<and>
         Marshal (string_Value []) = [CHR ''+'', CHR 0x0D, CHR 0x0A]"
proof -
  from assms have "serve_request U ks value sv =
      sv\<lparr>conn_out := conn_out sv @ Marshal (string_Value [])\<rparr>"
    by (simp add: serve_request_def Writer_Write_def string_Value_def)
  moreover have "Marshal (string_Value []) = [CHR ''+'', CHR 0x0D, CHR 0x0A]"
    by (simp add: string_Value_def marshalString_def STRING_def CRLF_def)
  ultimately show ?thesis by simp
qed

theorem unknown_command_reply_witness:
  "typ' (cmd [''FOO'']) = ''array'' \<and> array (cmd [''FOO'']) \<noteq> [] \<and>
   Handlers [] (ToUpper (\<lambda>s. s) (bulk (array (cmd [''FOO'']) ! 0))) = None \<and>
   conn_out (serve_request (\<lambda>s. s) [] (cmd [''FOO'']) fresh_server) = [CHR ''+'', CHR 0x0D, CHR 0x0A] \<and>
   keyspace (serve_request (\<lambda>s. s) [] (cmd [''FOO'']) fresh_server) = empty_store \<and>
   aof_file (serve_request (\<lambda>s. s) [] (cmd [''FOO'']) fresh_server) = []"
proof -
  have t: "typ' (cmd [''FOO'']) = ''array''" and a: "array (cmd [''FOO'']) \<noteq> []"
    by (simp_all add: cmd_def array_Value_def)
  have h: "Handlers [] (ToUpper (\<lambda>s. s) (bulk (array (cmd [''FOO'']) ! 0))) = None"
    by (simp add: cmd_def array_Value_def bulk_Value_def ToUpper_tests Handlers_lookup)
  from unknown_command_reply [OF t a h, of fresh_server] t a h show ?thesis
    by (simp add: fresh_server_def)
qed

text \<open>
  C4. Replaying the file that holds \<open>SET a 1\<close>, \<open>HSET h f 2\<close>, \<open>SET a 3\<close> in that order
  into the empty keyspace ends without an error, in a keyspace where \<open>GET a\<close> returns the
  bulk string \<open>3\<close> and \<open>HGET h f\<close> returns the bulk string \<open>2\<close>.
\<close>

theorem replay_example:
  "fst (Aof_Read (replay_fn U ks) replay_log empty_store) = None \<and>
   fst (get [bulk_Value ''a''] (snd (Aof_Read (replay_fn U ks) replay_log empty_store))) =
     bulk_Value ''3'' \<and>
   fst (hget [bulk_Value ''h'', bulk_Value ''f'']
          (snd (Aof_Read (replay_fn U ks) replay_log empty_store))) = bulk_Value ''2''"
proof -
  let ?c1 = "cmd [''SET'', ''a'', ''1'']" and ?c2 = "cmd [''HSET'', ''h'', ''f'', ''2'']"
    and ?c3 = "cmd [''SET'', ''a'', ''3'']"
  let ?st1 = "snd (set_handler [bulk_Value ''a'', bulk_Value ''1''] empty_store)"
  let ?st2 = "snd (hset [bulk_Value ''h'', bulk_Value ''f'', bulk_Value ''2''] ?st1)"
  let ?st3 = "snd (set_handler [bulk_Value ''a'', bulk_Value ''3''] ?st2)"
  have l1: "length (Marshal ?c1) = 27" and l2: "length (Marshal ?c2) = 35"
    and l3: "length (Marshal ?c3) = 27"
    by (simp_all add: cmd_def array_Value_def bulk_Value_def marshalBulk_def Itoa_digit CRLF_def)
  from l1 l2 l3 have len: "length replay_log = 89" by (simp add: replay_log_def)
  from len have ne: "replay_log \<noteq> []" by auto
  from len have le: "length replay_log \<le> defaultBufSize" by (simp add: defaultBufSize_def)
  have "Aof_Read (replay_fn U ks) replay_log empty_store =
        Aof_Read_loop (replay_fn U ks)
          \<lparr>buf = Marshal ?c1 @ Marshal ?c2 @ Marshal ?c3 @ [], rd = []\<rparr> empty_store"
    using Aof_Read_small [OF ne le] by (simp add: replay_log_def)
  also have "\<dots> = Aof_Read_loop (replay_fn U ks)
          \<lparr>buf = Marshal ?c2 @ Marshal ?c3 @ [], rd = []\<rparr> ?st1"
    by (subst Aof_Read_loop_buffered) (simp_all only: wire_tree_cmd l1 replay_fn_cmd sum.case, simp)
  also have "\<dots> = Aof_Read_loop (replay_fn U ks) \<lparr>buf = Marshal ?c3 @ [], rd = []\<rparr> ?st2"
    by (subst Aof_Read_loop_buffered) (simp_all only: wire_tree_cmd l2 replay_fn_cmd sum.case, simp)
  also have "\<dots> = Aof_Read_loop (replay_fn U ks) \<lparr>buf = [], rd = []\<rparr> ?st3"
    by (subst Aof_Read_loop_buffered) (simp_all only: wire_tree_cmd l3 replay_fn_cmd sum.case, simp)
  also have "\<dots> = (None, ?st3)" by (rule Aof_Read_loop_end)
  finally have r: "Aof_Read (replay_fn U ks) replay_log empty_store = (None, ?st3)" .
  have g: "fst (get [bulk_Value ''a''] ?st3) = bulk_Value ''3''"
    by (simp add: get_def set_handler_def hset_def bulk_Value_def empty_store_def)
  have h: "fst (hget [bulk_Value ''h'', bulk_Value ''f''] ?st3) = bulk_Value ''2''"
    by (simp add: hget_def set_handler_def hset_def bulk_Value_def empty_store_def)
  from r g h show ?thesis by simp
qed

text \<open>
  C3 at \<open>SET k v\<close> followed by \<open>DEL k\<close> on a fresh server: the file holds the \<open>SET\<close> alone,
  since the loop appends \<open>SET\<close> and \<open>HSET\<close> and no other command. The key is gone from the
  running keyspace, and replaying the file brings it back.
\<close>

theorem del_not_logged:
  "aof_file (serve_request U ks (cmd [''DEL'', ''k''])
              (serve_request U ks (cmd [''SET'', ''k'', ''v'']) fresh_server)) =
     Marshal (cmd [''SET'', ''k'', ''v'']) \<and>
   fst (get [bulk_Value ''k'']
          (keyspace (serve_request U ks (cmd [''DEL'', ''k''])
                      (serve_request U ks (cmd [''SET'', ''k'', ''v'']) fresh_server)))) =
     null_Value \<and>
   fst (get [bulk_Value ''k'']
          (snd (Aof_Read (replay_fn U ks) (Marshal (cmd [''SET'', ''k'', ''v''])) empty_store))) =
     bulk_Value ''v''"
proof -
  let ?c = "cmd [''SET'', ''k'', ''v'']"
  let ?st1 = "snd (set_handler [bulk_Value ''k'', bulk_Value ''v''] empty_store)"
  have log: "aof_file (serve_request U ks (cmd [''DEL'', ''k''])
              (serve_request U ks ?c fresh_server)) = Marshal ?c"
    by (simp add: serve_request_SET serve_request_DEL fresh_server_def)
  have live: "fst (get [bulk_Value ''k'']
          (keyspace (serve_request U ks (cmd [''DEL'', ''k''])
                      (serve_request U ks ?c fresh_server)))) = null_Value"
    by (simp add: serve_request_SET serve_request_DEL fresh_server_def empty_store_def
          set_handler_def del_def get_def bulk_Value_def)
  have l: "length (Marshal ?c) = 27"
    by (simp add: cmd_def array_Value_def bulk_Value_def marshalBulk_def Itoa_digit CRLF_def)
  from l have ne: "Marshal ?c \<noteq> []" by auto
  from l have le: "length (Marshal ?c) \<le> defaultBufSize" by (simp add: defaultBufSize_def)
  have "Aof_Read (replay_fn U ks) (Marshal ?c) empty_store =
        Aof_Read_loop (replay_fn U ks) \<lparr>buf = Marshal ?c @ [], rd = []\<rparr> empty_store"
    using Aof_Read_small [OF ne le] by simp
  also have "\<dots> = Aof_Read_loop (replay_fn U ks) \<lparr>buf = [], rd = []\<rparr> ?st1"
    by (subst Aof_Read_loop_buffered) (simp_all only: wire_tree_cmd l replay_fn_cmd sum.case, simp)
  also have "\<dots> = (None, ?st1)" by (rule Aof_Read_loop_end)
  finally have "fst (get [bulk_Value ''k'']
          (snd (Aof_Read (replay_fn U ks) (Marshal ?c) empty_store))) = bulk_Value ''v''"
    by (simp add: get_def set_handler_def bulk_Value_def empty_store_def)
  with log live show ?thesis by blast
qed

end
